theory Spec2Isabelle
  imports Main "HOL-Library.AList"
begin

section \<open>Python strings\<close>

text \<open>
  A Python \<^verbatim>\<open>str\<close> is a sequence of code points. The model is \<open>string\<close>, a list of
  8-bit characters, each read as the code point of the same number (0 to 255, the
  Latin-1 range). \<^verbatim>\<open>str.isspace\<close>, \<^verbatim>\<open>str.lower\<close>, \<^verbatim>\<open>str.strip\<close>,
  \<^verbatim>\<open>str.endswith\<close> and \<^verbatim>\<open>str.replace\<close> are written out for that range.
\<close>

definition is_space :: "char \<Rightarrow> bool" where
  \<comment> \<open>the code points below 256 that \<^verbatim>\<open>str.strip()\<close> removes\<close>
  "is_space c = (let n = (of_char c :: nat) in
     (9 \<le> n \<and> n \<le> 13) \<or> (28 \<le> n \<and> n \<le> 32) \<or> n = 133 \<or> n = 160)"

definition is_upper :: "char \<Rightarrow> bool" where
  \<comment> \<open>the code points below 256 that \<^verbatim>\<open>str.lower()\<close> changes: A to Z, and the
      accented capitals 192 to 222 without the multiplication sign 215\<close>
  "is_upper c = (let n = (of_char c :: nat) in
     (65 \<le> n \<and> n \<le> 90) \<or> (192 \<le> n \<and> n \<le> 222 \<and> n \<noteq> 215))"

fun lower_char :: "char \<Rightarrow> char" where
  \<comment> \<open>lower-casing adds 32, which sets the bit of value 32 (clear in every capital)\<close>
  "lower_char (Char b0 b1 b2 b3 b4 b5 b6 b7) =
     (if is_upper (Char b0 b1 b2 b3 b4 b5 b6 b7) then Char b0 b1 b2 b3 b4 True b6 b7
      else Char b0 b1 b2 b3 b4 b5 b6 b7)"

definition lower :: "string \<Rightarrow> string" where
  "lower s = map lower_char s"

definition lstrip :: "string \<Rightarrow> string" where
  "lstrip s = dropWhile is_space s"

definition rstrip :: "string \<Rightarrow> string" where
  "rstrip s = rev (dropWhile is_space (rev s))"

definition strip :: "string \<Rightarrow> string" where
  "strip s = rstrip (lstrip s)"

definition endswith :: "string \<Rightarrow> string \<Rightarrow> bool" where
  "endswith s suf = (take (length suf) (rev s) = rev suf)"

definition str_or_empty :: "string \<Rightarrow> string" where
  \<comment> \<open>\<^verbatim>\<open>name or ""\<close> on a \<^verbatim>\<open>str\<close>: the only falsy string is the empty one\<close>
  "str_or_empty name = (if name = [] then [] else name)"

section \<open>ensure_pdf (script.py, lines 24 to 28)\<close>

definition ensure_pdf :: "string \<Rightarrow> string" where
  "ensure_pdf name0 =
     (let name = strip (str_or_empty name0) in
      if \<not> endswith (lower name) ''.pdf'' then name @ ''.pdf'' else name)"

text \<open>
  The specification's words for the two notions \<open>ensure_pdf\<close> is described with:
  a text ends with \<^verbatim>\<open>.pdf\<close> case-insensitively when its last four characters are a
  dot and the letters p, d, f, each in either case; it is trimmed when neither its first
  nor its last character is whitespace.
\<close>

definition ends_with_pdf_ci :: "string \<Rightarrow> bool" where
  "ends_with_pdf_ci s = (\<exists>u a b c. s = u @ [CHR ''.'', a, b, c] \<and>
     (a = CHR ''p'' \<or> a = CHR ''P'') \<and> (b = CHR ''d'' \<or> b = CHR ''D'') \<and>
     (c = CHR ''f'' \<or> c = CHR ''F''))"

definition trimmed_of :: "string \<Rightarrow> string \<Rightarrow> bool" where
  \<comment> \<open>\<open>t\<close> is \<open>s\<close> without its leading and trailing whitespace\<close>
  "trimmed_of s t = (\<exists>l r. s = l @ t @ r \<and> list_all is_space l \<and> list_all is_space r \<and>
     (t = [] \<or> (\<not> is_space (hd t) \<and> \<not> is_space (last t))))"

section \<open>The csv module, as far as the script uses it\<close>

text \<open>
  \<^verbatim>\<open>csv.Sniffer\<close> and \<^verbatim>\<open>csv.DictReader\<close> belong to Python's library, not to the
  script, and are parameters of the model. \<open>sniff\<close> gets the sample and the allowed
  delimiters and returns \<open>None\<close> where the library raises. \<open>dict_reader\<close> gets the
  text of the file and the dialect and returns \<^verbatim>\<open>reader.fieldnames\<close> (which is
  \<^verbatim>\<open>None\<close> for an empty file) and the dictionaries of the data rows, in file order.
  A cell of a row is \<open>None\<close> where the row is shorter than the header.
\<close>

datatype quoting = QUOTE_MINIMAL | QUOTE_ALL | QUOTE_NONNUMERIC | QUOTE_NONE

record dialect =
  delimiter :: char
  quotechar :: "char option"
  escapechar :: "char option"
  doublequote :: bool
  skipinitialspace :: bool
  lineterminator :: string
  quoting :: quoting

type_synonym raw = "(string \<times> string option) list"

record csvlib =
  sniff :: "string \<Rightarrow> string \<Rightarrow> dialect option"
  dict_reader :: "string \<Rightarrow> dialect \<Rightarrow> string list option \<times> raw list"

section \<open>sniff_csv_dialect (script.py, lines 57 to 75)\<close>

definition SimpleDialect :: "string \<Rightarrow> dialect" where
  "SimpleDialect sample =
     \<lparr> delimiter = (if CHR '','' \<in> set sample then CHR '',''
                    else (if CHR 0x09 \<in> set sample then CHR 0x09 else CHR '';'')),
       quotechar = Some (CHR 0x22),
       escapechar = None,
       doublequote = True,
       skipinitialspace = True,
       lineterminator = [CHR 0x0A],
       quoting = QUOTE_MINIMAL \<rparr>"

definition sniff_csv_dialect :: "csvlib \<Rightarrow> string \<Rightarrow> dialect" where
  "sniff_csv_dialect lib content =
     (let sample = take 2048 content in
      case sniff lib sample [CHR '','', CHR '';'', CHR 0x09, CHR ''|''] of
        Some dialect \<Rightarrow> dialect
      | None \<Rightarrow> SimpleDialect sample)"

section \<open>load_rows (script.py, lines 77 to 129)\<close>

text \<open>
  A Python dictionary with string keys is an association list kept in insertion order;
  \<open>AList.update\<close> overwrites the value of a key that is present, in place, and appends a
  new key at the end, as assignment to a \<^verbatim>\<open>dict\<close> does. A lookup of a missing key
  raises \<^verbatim>\<open>KeyError\<close>.
\<close>

datatype key_error = KeyError string

definition dict_get :: "(string \<times> 'v) list \<Rightarrow> string \<Rightarrow> key_error + 'v" where
  "dict_get d k = (case map_of d k of None \<Rightarrow> Inl (KeyError k) | Some v \<Rightarrow> Inr v)"

definition dict_has :: "(string \<times> 'v) list \<Rightarrow> string \<Rightarrow> bool" where
  \<comment> \<open>\<^verbatim>\<open>k in d\<close>\<close>
  "dict_has d k = (map_of d k \<noteq> None)"

definition remove_char :: "char \<Rightarrow> string \<Rightarrow> string" where
  \<comment> \<open>\<^verbatim>\<open>s.replace(c, "")\<close> for a one-character \<open>c\<close>\<close>
  "remove_char c s = filter (\<lambda>x. x \<noteq> c) s"

definition replace_char :: "char \<Rightarrow> char \<Rightarrow> string \<Rightarrow> string" where
  \<comment> \<open>\<^verbatim>\<open>s.replace(c, d)\<close> for one-character \<open>c\<close> and \<open>d\<close>\<close>
  "replace_char c d s = map (\<lambda>x. if x = c then d else x) s"

definition squash :: "string \<Rightarrow> string" where
  \<comment> \<open>\<^verbatim>\<open>k.replace(" ", "").replace("-", "_")\<close>, lines 90 and 100\<close>
  "squash k = replace_char (CHR ''-'') (CHR ''_'') (remove_char (CHR '' '') k)"

definition required :: "string list" where
  "required = [''path'', ''folio'', ''folio_correcto'']"

definition candidates :: "string list" where
  "candidates = [''folio_correcto'', ''foliocorrecto'', ''folio-correcto'', ''folio correcto'']"

definition build_field_map :: "string list \<Rightarrow> (string \<times> string) list" where
  \<comment> \<open>line 82\<close>
  "build_field_map fieldnames =
     foldl (\<lambda>m f. AList.update (lower (strip (str_or_empty f))) f m) [] fieldnames"

definition build_alt_map :: "(string \<times> string) list \<Rightarrow> (string \<times> string) list" where
  \<comment> \<open>lines 88 to 91\<close>
  "build_alt_map field_map = foldl (\<lambda>m (k, orig). AList.update (squash k) orig m) [] field_map"

fun first_candidate :: "string list \<Rightarrow> (string \<times> string) list \<Rightarrow> string option" where
  \<comment> \<open>lines 99 to 103: the first candidate found in \<open>alt_map\<close> wins\<close>
  "first_candidate [] alt_map = None"
| "first_candidate (cand # cands) alt_map =
     (let c2 = squash cand in
      if dict_has alt_map c2 then map_of alt_map c2 else first_candidate cands alt_map)"

definition remap_step ::
  "(string \<times> string) list \<Rightarrow> (string \<times> string) list \<Rightarrow> (string \<times> string) list \<Rightarrow> string
     \<Rightarrow> (string \<times> string) list" where
  \<comment> \<open>the body of the loop of lines 93 to 103\<close>
  "remap_step field_map alt_map remapped r =
     (if dict_has field_map r then
        (case map_of field_map r of Some orig \<Rightarrow> AList.update r orig remapped
         | None \<Rightarrow> remapped)
      else if r = ''folio_correcto'' then
        (case first_candidate candidates alt_map of
           Some orig \<Rightarrow> AList.update r orig remapped
         | None \<Rightarrow> remapped)
      else remapped)"

definition found_names :: "string list option \<Rightarrow> string list" where
  \<comment> \<open>\<^verbatim>\<open>reader.fieldnames or []\<close>\<close>
  "found_names fieldnames = (case fieldnames of None \<Rightarrow> [] | Some names \<Rightarrow> names)"

datatype load_error = SchemaError "string list" "string list"
  \<comment> \<open>lines 106 to 109: the required names and the found names are printed, then
      \<^verbatim>\<open>sys.exit(1)\<close>\<close>

definition resolve_columns :: "string list option \<Rightarrow> load_error + (string \<times> string) list" where
  \<comment> \<open>lines 82 to 110; the result is the final \<open>field_map\<close>\<close>
  "resolve_columns fieldnames =
     (let found = found_names fieldnames;
          field_map = build_field_map found;
          missing = filter (\<lambda>r. \<not> dict_has field_map r) required
      in if missing \<noteq> [] then
           (let alt_map = build_alt_map field_map;
                remapped = foldl (remap_step field_map alt_map) [] required;
                missing2 = filter (\<lambda>r. \<not> dict_has remapped r) required
            in if missing2 \<noteq> [] then Inl (SchemaError required found) else Inr remapped)
         else Inr field_map)"

record row =
  rel_path :: string
  folio :: string
  folio_ok :: string
  rownum :: nat

datatype row_msg = RowIncomplete nat | RowMissingColumn nat string
  \<comment> \<open>the two messages of lines 119 and 128, with the row number (and the key)\<close>

definition opt_or_empty :: "string option \<Rightarrow> string" where
  \<comment> \<open>\<^verbatim>\<open>v or ""\<close> on a cell that is a \<^verbatim>\<open>str\<close> or \<^verbatim>\<open>None\<close>\<close>
  "opt_or_empty v = (case v of None \<Rightarrow> [] | Some s \<Rightarrow> (if s = [] then [] else s))"

definition cell :: "(string \<times> string) list \<Rightarrow> raw \<Rightarrow> string \<Rightarrow> key_error + string" where
  \<comment> \<open>\<^verbatim>\<open>(raw[field_map[key]] or "").strip()\<close>\<close>
  "cell field_map raw key =
     (case dict_get field_map key of
        Inl e \<Rightarrow> Inl e
      | Inr column \<Rightarrow>
          (case dict_get raw column of
             Inl e \<Rightarrow> Inl e
           | Inr v \<Rightarrow> Inr (strip (opt_or_empty v))))"

datatype row_result = Parsed row | Skipped row_msg

definition parse_row :: "(string \<times> string) list \<Rightarrow> nat \<Rightarrow> raw \<Rightarrow> row_result" where
  \<comment> \<open>the body of the loop of lines 113 to 128\<close>
  "parse_row field_map i raw =
     (case cell field_map raw ''path'' of
        Inl (KeyError k) \<Rightarrow> Skipped (RowMissingColumn i k)
      | Inr rp \<Rightarrow>
     (case cell field_map raw ''folio'' of
        Inl (KeyError k) \<Rightarrow> Skipped (RowMissingColumn i k)
      | Inr fo \<Rightarrow>
     (case cell field_map raw ''folio_correcto'' of
        Inl (KeyError k) \<Rightarrow> Skipped (RowMissingColumn i k)
      | Inr fk \<Rightarrow>
         if \<not> (rp \<noteq> [] \<and> fo \<noteq> [] \<and> fk \<noteq> []) then Skipped (RowIncomplete i)
         else Parsed \<lparr> rel_path = rp, folio = fo, folio_ok = fk, rownum = i \<rparr>)))"

fun read_rows ::
  "(string \<times> string) list \<Rightarrow> nat \<Rightarrow> raw list \<Rightarrow> row list \<times> row_msg list
     \<Rightarrow> row list \<times> row_msg list" where
  \<comment> \<open>the loop of lines 112 to 129: \<open>i\<close> is the counter of \<^verbatim>\<open>enumerate\<close>, the pair
      holds \<^verbatim>\<open>rows\<close> and what has been printed\<close>
  "read_rows field_map i [] acc = acc"
| "read_rows field_map i (raw # raws) (rows, msgs) =
     (case parse_row field_map i raw of
        Parsed r \<Rightarrow> read_rows field_map (Suc i) raws (rows @ [r], msgs)
      | Skipped m \<Rightarrow> read_rows field_map (Suc i) raws (rows, msgs @ [m]))"

definition load_rows :: "csvlib \<Rightarrow> string \<Rightarrow> load_error + (row list \<times> row_msg list)" where
  "load_rows lib content =
     (let dialect = sniff_csv_dialect lib content;
          (fieldnames, raws) = dict_reader lib content dialect
      in case resolve_columns fieldnames of
           Inl e \<Rightarrow> Inl e
         | Inr field_map \<Rightarrow> Inr (read_rows field_map 2 raws ([], [])))"

section \<open>The filesystem, as far as the script uses it\<close>

text \<open>
  \<^verbatim>\<open>pathlib\<close> and the operating system are not part of the script either. The model
  takes them as a record of operations over a type \<open>'p\<close> of paths and a type \<open>'fs\<close> of
  filesystem states: \<open>path_join\<close> is the operator \<^verbatim>\<open>/\<close>, \<open>fs_exists\<close> is
  \<^verbatim>\<open>Path.exists()\<close>, \<open>fs_resolve\<close> is \<^verbatim>\<open>Path.resolve()\<close>, and \<open>fs_rename\<close> is
  \<^verbatim>\<open>Path.rename()\<close>, which returns the new state or the message of the exception it
  raises. \<open>fs_exists\<close> and \<open>fs_resolve\<close> are taken not to raise.
\<close>

record ('fs, 'p) osops =
  path_join :: "'p \<Rightarrow> string \<Rightarrow> 'p"
  fs_exists :: "'fs \<Rightarrow> 'p \<Rightarrow> bool"
  fs_resolve :: "'fs \<Rightarrow> 'p \<Rightarrow> 'p"
  fs_rename :: "'fs \<Rightarrow> 'p \<Rightarrow> 'p \<Rightarrow> string + 'fs"

section \<open>main (script.py, lines 143 to 224)\<close>

text \<open>What the script prints, one constructor for each \<^verbatim>\<open>print\<close> (or group of them).\<close>

datatype status = SrcFound | DstConflict | SrcMissing
  \<comment> \<open>the three texts of lines 162, 165 and 168\<close>

datatype 'p event =
    EvSchemaError "string list" "string list"  \<comment> \<open>lines 106 to 108\<close>
  | EvRow row_msg                              \<comment> \<open>lines 119 and 128\<close>
  | EvNoValidRows                              \<comment> \<open>line 145\<close>
  | EvPreviewHeader                            \<comment> \<open>line 149\<close>
  | EvPreviewItem nat 'p 'p "status list"      \<comment> \<open>lines 178 to 181\<close>
  | EvSummary nat nat nat                      \<comment> \<open>lines 183 to 186\<close>
  | EvInterrupted                              \<comment> \<open>line 34\<close>
  | EvCancelled                                \<comment> \<open>line 190\<close>
  | EvApplyHeader                              \<comment> \<open>line 193\<close>
  | EvOmittedCannotMove 'p 'p                  \<comment> \<open>line 198\<close>
  | EvAlreadyOk 'p                             \<comment> \<open>line 205\<close>
  | EvOmittedDstExists 'p 'p                   \<comment> \<open>line 210\<close>
  | EvRenamed 'p 'p                            \<comment> \<open>line 215\<close>
  | EvError 'p 'p string                       \<comment> \<open>line 218\<close>
  | EvResult nat nat                           \<comment> \<open>lines 221 to 224\<close>

record 'p item =
  item_rownum :: nat
  src :: 'p
  dst :: 'p
  can_move :: bool

record 'p plan_state =
  plan :: "'p item list"
  n_exists :: nat
  n_missing :: nat
  n_conflicts :: nat
  preview :: "'p event list"

definition src_path :: "('fs, 'p) osops \<Rightarrow> 'fs \<Rightarrow> 'p \<Rightarrow> row \<Rightarrow> 'p" where
  \<comment> \<open>lines 154, 155, 157\<close>
  "src_path ops fs base_dir r =
     (let folder = fs_resolve ops fs (path_join ops base_dir (rel_path r));
          src_name = ensure_pdf (folio r)
      in path_join ops folder src_name)"

definition dst_path :: "('fs, 'p) osops \<Rightarrow> 'fs \<Rightarrow> 'p \<Rightarrow> row \<Rightarrow> 'p" where
  \<comment> \<open>lines 154, 156, 158\<close>
  "dst_path ops fs base_dir r =
     (let folder = fs_resolve ops fs (path_join ops base_dir (rel_path r));
          dst_name = ensure_pdf (folio_ok r)
      in path_join ops folder dst_name)"

definition plan_step ::
  "('fs, 'p) osops \<Rightarrow> 'fs \<Rightarrow> 'p \<Rightarrow> 'p plan_state \<Rightarrow> row \<Rightarrow> 'p plan_state" where
  \<comment> \<open>the body of the loop of lines 153 to 181\<close>
  "plan_step ops fs base_dir st r =
     (let s = src_path ops fs base_dir r;
          d = dst_path ops fs base_dir r;
          conflict = (fs_exists ops fs s \<and> fs_exists ops fs d
                      \<and> fs_resolve ops fs s \<noteq> fs_resolve ops fs d);
          status = (if fs_exists ops fs s
                    then [SrcFound] @ (if conflict then [DstConflict] else [])
                    else [SrcMissing]);
          it = \<lparr> item_rownum = rownum r, src = s, dst = d,
                 can_move = (fs_exists ops fs s \<and>
                             (\<not> fs_exists ops fs d \<or> fs_resolve ops fs s = fs_resolve ops fs d)) \<rparr>
      in \<lparr> plan = plan st @ [it],
           n_exists = n_exists st + (if fs_exists ops fs s then 1 else 0),
           n_missing = n_missing st + (if fs_exists ops fs s then 0 else 1),
           n_conflicts = n_conflicts st + (if conflict then 1 else 0),
           preview = preview st @ [EvPreviewItem (rownum r) s d status] \<rparr>)"

definition make_plan :: "('fs, 'p) osops \<Rightarrow> 'fs \<Rightarrow> 'p \<Rightarrow> row list \<Rightarrow> 'p plan_state" where
  \<comment> \<open>lines 150 to 181\<close>
  "make_plan ops fs base_dir rows =
     foldl (plan_step ops fs base_dir)
       \<lparr> plan = [], n_exists = 0, n_missing = 0, n_conflicts = 0, preview = [] \<rparr> rows"

record ('fs, 'p) exec_state =
  fs :: 'fs
  moved :: nat
  skipped :: nat
  log :: "'p event list"

definition exec_item ::
  "('fs, 'p) osops \<Rightarrow> ('fs, 'p) exec_state \<Rightarrow> 'p item \<Rightarrow> ('fs, 'p) exec_state" where
  \<comment> \<open>the body of the loop of lines 195 to 219\<close>
  "exec_item ops st it =
     (if \<not> can_move it then
        st\<lparr> skipped := skipped st + 1, log := log st @ [EvOmittedCannotMove (src it) (dst it)] \<rparr>
      else if fs_resolve ops (fs st) (src it) = fs_resolve ops (fs st) (dst it) then
        st\<lparr> log := log st @ [EvAlreadyOk (src it)] \<rparr>
      else if fs_exists ops (fs st) (dst it) then
        st\<lparr> skipped := skipped st + 1, log := log st @ [EvOmittedDstExists (src it) (dst it)] \<rparr>
      else
        (case fs_rename ops (fs st) (src it) (dst it) of
           Inr fs' \<Rightarrow>
             st\<lparr> fs := fs', moved := moved st + 1, log := log st @ [EvRenamed (src it) (dst it)] \<rparr>
         | Inl e \<Rightarrow>
             st\<lparr> skipped := skipped st + 1, log := log st @ [EvError (src it) (dst it) e] \<rparr>))"

definition execute ::
  "('fs, 'p) osops \<Rightarrow> ('fs, 'p) exec_state \<Rightarrow> 'p item list \<Rightarrow> ('fs, 'p) exec_state" where
  \<comment> \<open>the loop of lines 195 to 219, from any state\<close>
  "execute ops st items = foldl (exec_item ops) st items"

definition start :: "'fs \<Rightarrow> ('fs, 'p) exec_state" where
  \<comment> \<open>line 194\<close>
  "start f = \<lparr> fs = f, moved = 0, skipped = 0, log = [] \<rparr>"

record ('fs, 'p) outcome =
  exit_status :: nat
  final_fs :: 'fs
  printed :: "'p event list"

definition main ::
  "('fs, 'p) osops \<Rightarrow> csvlib \<Rightarrow> 'p \<Rightarrow> string \<Rightarrow> string option \<Rightarrow> 'fs \<Rightarrow> ('fs, 'p) outcome" where
  \<comment> \<open>\<^verbatim>\<open>main\<close> from line 143 on: the base directory and the text of the chosen CSV
      file are given; \<open>go\<close> is the answer to the prompt of line 188, \<open>None\<close> when the
      operator interrupts it (lines 33 to 35)\<close>
  "main ops lib base_dir content go f =
     (case load_rows lib content of
        Inl (SchemaError req found) \<Rightarrow>
          \<lparr> exit_status = 1, final_fs = f, printed = [EvSchemaError req found] \<rparr>
      | Inr (rows, msgs) \<Rightarrow>
          if rows = [] then
            \<lparr> exit_status = 0, final_fs = f, printed = map EvRow msgs @ [EvNoValidRows] \<rparr>
          else
            (let ps = make_plan ops f base_dir rows;
                 shown = map EvRow msgs @ [EvPreviewHeader] @ preview ps
                         @ [EvSummary (n_exists ps) (n_missing ps) (n_conflicts ps)]
             in case go of
                  None \<Rightarrow> \<lparr> exit_status = 1, final_fs = f, printed = shown @ [EvInterrupted] \<rparr>
                | Some answer \<Rightarrow>
                    if strip answer \<noteq> ''1'' then
                      \<lparr> exit_status = 0, final_fs = f, printed = shown @ [EvCancelled] \<rparr>
                    else
                      (let es = execute ops (start f) (plan ps)
                       in \<lparr> exit_status = 0, final_fs = fs es,
                            printed = shown @ [EvApplyHeader] @ log es
                                     @ [EvResult (moved es) (skipped es)] \<rparr>)))"

section \<open>A plain filesystem and a fixed table, to run the model on\<close>

text \<open>
  Paths are strings, a state is the list of the paths that exist, nothing is a link and
  names are case-sensitive, so a path resolves to itself. Renaming a path that does not
  exist fails; otherwise the source disappears and the destination exists.
\<close>

definition plain_ops :: "(string list, string) osops" where
  "plain_ops =
     \<lparr> path_join = (\<lambda>p s. p @ ''/'' @ s),
       fs_exists = (\<lambda>f p. p \<in> set f),
       fs_resolve = (\<lambda>f p. p),
       fs_rename = (\<lambda>f s d. if s \<in> set f then Inr (d # filter (\<lambda>p. p \<noteq> s \<and> p \<noteq> d) f)
                             else Inl ''FileNotFoundError'') \<rparr>"

definition table_lib :: "string list \<Rightarrow> raw list \<Rightarrow> csvlib" where
  \<comment> \<open>a library whose sniffer always fails and whose reader yields the given header and
      rows\<close>
  "table_lib fieldnames raws =
     \<lparr> sniff = (\<lambda>sample delims. None), dict_reader = (\<lambda>content d. (Some fieldnames, raws)) \<rparr>"

section \<open>The specification's notions\<close>

text \<open>
  The outcomes of the data rows, numbered from 2 in file order: what the loop of
  \<open>load_rows\<close> is compared with.
\<close>

definition row_outcomes :: "(string \<times> string) list \<Rightarrow> raw list \<Rightarrow> row_result list" where
  "row_outcomes field_map raws =
     map (\<lambda>(i, raw). parse_row field_map i raw) (zip [2 ..< 2 + length raws] raws)"

text \<open>
  Header resolution as the script does it. A required column matches directly when it is
  the lower-cased, trimmed form of a header name. The fuzzy match, which the script
  tries for \<^verbatim>\<open>folio_correcto\<close> only, removes spaces and turns hyphens into
  underscores, in the header names and in the four candidate spellings.
\<close>

definition header_keys :: "string list \<Rightarrow> string list" where
  "header_keys found = map (\<lambda>f. lower (strip f)) found"

definition direct_match :: "string list \<Rightarrow> string \<Rightarrow> bool" where
  "direct_match found r = (r \<in> set (header_keys found))"

definition fuzzy_match :: "string list \<Rightarrow> bool" where
  "fuzzy_match found = (\<exists>c \<in> set candidates. squash c \<in> set (map squash (header_keys found)))"

definition columns_resolved :: "string list \<Rightarrow> bool" where
  "columns_resolved found =
     (direct_match found ''path'' \<and> direct_match found ''folio'' \<and>
      (direct_match found ''folio_correcto'' \<or> fuzzy_match found))"

text \<open>
  Header resolution in the specification's words: every required column that has no
  direct match is looked for after spaces and hyphens are stripped from the required
  name, from its known synonyms and from the header names.
\<close>

definition strip_spaces_hyphens :: "string \<Rightarrow> string" where
  "strip_spaces_hyphens s = filter (\<lambda>c. c \<noteq> CHR '' '' \<and> c \<noteq> CHR ''-'') s"

definition synonyms :: "string \<Rightarrow> string list" where
  "synonyms r = (if r = ''folio_correcto''
                 then [''folio correcto'', ''folio-correcto'', ''foliocorrecto''] else [])"

definition spec_resolved :: "string list \<Rightarrow> string \<Rightarrow> bool" where
  "spec_resolved found r =
     (r \<in> set (header_keys found) \<or>
      (\<exists>c \<in> set (r # synonyms r).
         strip_spaces_hyphens c \<in> set (map strip_spaces_hyphens (header_keys found))))"

text \<open>
  The plan entry of one record, and the two tallies, as functions of the record: what the
  loop of the planner is compared with.
\<close>

definition entry_of :: "('fs, 'p) osops \<Rightarrow> 'fs \<Rightarrow> 'p \<Rightarrow> row \<Rightarrow> 'p item" where
  "entry_of ops f base_dir r =
     \<lparr> item_rownum = rownum r,
       src = src_path ops f base_dir r,
       dst = dst_path ops f base_dir r,
       can_move = (fs_exists ops f (src_path ops f base_dir r) \<and>
                   (\<not> fs_exists ops f (dst_path ops f base_dir r) \<or>
                    fs_resolve ops f (dst_path ops f base_dir r)
                      = fs_resolve ops f (src_path ops f base_dir r))) \<rparr>"

definition source_found :: "('fs, 'p) osops \<Rightarrow> 'fs \<Rightarrow> 'p \<Rightarrow> row \<Rightarrow> bool" where
  "source_found ops f base_dir r = fs_exists ops f (src_path ops f base_dir r)"

definition conflicting :: "('fs, 'p) osops \<Rightarrow> 'fs \<Rightarrow> 'p \<Rightarrow> row \<Rightarrow> bool" where
  "conflicting ops f base_dir r =
     (fs_exists ops f (src_path ops f base_dir r) \<and> fs_exists ops f (dst_path ops f base_dir r) \<and>
      fs_resolve ops f (src_path ops f base_dir r) \<noteq> fs_resolve ops f (dst_path ops f base_dir r))"

text \<open>
  A filesystem whose renames behave: paths that resolve alike name the same file, and a
  rename that succeeds leaves the resolution of every path as it was, removes the file
  under the paths that resolve like the source and makes it exist under the paths that
  resolve like the destination, every other path staying as it was. Paths may be aliases
  of one another.
\<close>

definition alias_fs :: "('fs, 'p) osops \<Rightarrow> bool" where
  "alias_fs ops \<longleftrightarrow>
     (\<forall>f p q. fs_resolve ops f p = fs_resolve ops f q \<longrightarrow> fs_exists ops f p = fs_exists ops f q) \<and>
     (\<forall>f s d f'. fs_rename ops f s d = Inr f' \<longrightarrow>
        (\<forall>p. fs_resolve ops f' p = fs_resolve ops f p) \<and>
        (\<forall>p. fs_exists ops f' p \<longleftrightarrow>
               fs_resolve ops f p = fs_resolve ops f d \<or>
               (fs_resolve ops f p \<noteq> fs_resolve ops f s \<and> fs_exists ops f p)))"

text \<open>
  A filesystem whose names are case-insensitive: two paths that differ in case only
  resolve to the same path and name the same file.
\<close>

definition nocase_ops :: "(string list, string) osops" where
  "nocase_ops =
     \<lparr> path_join = (\<lambda>p s. p @ ''/'' @ s),
       fs_exists = (\<lambda>f p. lower p \<in> set (map lower f)),
       fs_resolve = (\<lambda>f p. lower p),
       fs_rename = (\<lambda>f s d. if lower s \<in> set (map lower f)
                             then Inr (d # filter (\<lambda>p. lower p \<noteq> lower s \<and> lower p \<noteq> lower d) f)
                             else Inl ''FileNotFoundError'') \<rparr>"

section \<open>Facts about the string functions\<close>

lemma lower_char_dot: "lower_char c = CHR ''.'' \<longleftrightarrow> c = CHR ''.''"
  by (cases c) (auto simp add: is_upper_def Let_def)

lemma lower_char_p: "lower_char c = CHR ''p'' \<longleftrightarrow> c = CHR ''p'' \<or> c = CHR ''P''"
  by (cases c) (auto simp add: is_upper_def Let_def)

lemma lower_char_d: "lower_char c = CHR ''d'' \<longleftrightarrow> c = CHR ''d'' \<or> c = CHR ''D''"
  by (cases c) (auto simp add: is_upper_def Let_def)

lemma lower_char_f: "lower_char c = CHR ''f'' \<longleftrightarrow> c = CHR ''f'' \<or> c = CHR ''F''"
  by (cases c) (auto simp add: is_upper_def Let_def)

lemma endswith_iff: "endswith s suf \<longleftrightarrow> (\<exists>u. s = u @ suf)"
proof
  assume "endswith s suf"
  then have "take (length (rev suf)) (rev s) = rev suf"
    by (simp add: endswith_def)
  then have "rev s = rev suf @ drop (length suf) (rev s)"
    by (metis append_take_drop_id length_rev)
  then have "s = rev (drop (length suf) (rev s)) @ suf"
    by (metis rev_append rev_rev_ident)
  then show "\<exists>u. s = u @ suf" ..
next
  assume "\<exists>u. s = u @ suf"
  then show "endswith s suf"
    by (auto simp add: endswith_def)
qed

lemma endswith_lower_pdf: "endswith (lower s) ''.pdf'' \<longleftrightarrow> ends_with_pdf_ci s"
proof
  assume "endswith (lower s) ''.pdf''"
  then obtain u where u: "map lower_char s = u @ ''.pdf''"
    by (auto simp add: endswith_iff lower_def)
  then obtain v w where s: "s = v @ w" and w: "map lower_char w = ''.pdf''"
    by (auto simp add: map_eq_append_conv)
  from w obtain x a b c where "w = [x, a, b, c]"
    by (auto simp add: map_eq_Cons_conv)
  with w s show "ends_with_pdf_ci s"
    by (auto simp add: ends_with_pdf_ci_def lower_char_dot lower_char_p lower_char_d lower_char_f)
next
  assume "ends_with_pdf_ci s"
  then obtain u a b c where s: "s = u @ [CHR ''.'', a, b, c]"
    and abc: "lower_char a = CHR ''p''" "lower_char b = CHR ''d''" "lower_char c = CHR ''f''"
    by (auto simp add: ends_with_pdf_ci_def lower_char_p lower_char_d lower_char_f)
  have "lower_char (CHR ''.'') = CHR ''.''"
    by (simp add: lower_char_dot)
  with s abc have "lower s = map lower_char u @ ''.pdf''"
    by (simp add: lower_def)
  then show "endswith (lower s) ''.pdf''"
    by (auto simp add: endswith_iff)
qed

lemma dropWhile_split: "\<exists>l. xs = l @ dropWhile P xs \<and> list_all P l"
proof -
  have "xs = takeWhile P xs @ dropWhile P xs" by simp
  moreover have "list_all P (takeWhile P xs)"
    by (induction xs) auto
  ultimately show ?thesis by blast
qed

lemma dropWhile_hd: "dropWhile P xs \<noteq> [] \<Longrightarrow> \<not> P (hd (dropWhile P xs))"
  by (rule hd_dropWhile)

lemma lstrip_split: "\<exists>l. s = l @ lstrip s \<and> list_all is_space l"
  unfolding lstrip_def by (rule dropWhile_split)

lemma rstrip_split: "\<exists>r. s = rstrip s @ r \<and> list_all is_space r"
proof -
  obtain l where l: "rev s = l @ dropWhile is_space (rev s)" and sp: "list_all is_space l"
    using dropWhile_split [of "rev s" is_space] by blast
  from l have "s = rev (dropWhile is_space (rev s)) @ rev l"
    by (metis rev_append rev_rev_ident)
  moreover from sp have "list_all is_space (rev l)"
    by (simp add: list_all_iff)
  ultimately show ?thesis
    unfolding rstrip_def by blast
qed

lemma rstrip_last: "rstrip s \<noteq> [] \<Longrightarrow> \<not> is_space (last (rstrip s))"
  unfolding rstrip_def using hd_dropWhile [of is_space "rev s"]
  by (simp add: last_rev)

lemma rstrip_hd: "s \<noteq> [] \<Longrightarrow> \<not> is_space (hd s) \<Longrightarrow> rstrip s \<noteq> [] \<and> hd (rstrip s) = hd s"
proof -
  assume ne: "s \<noteq> []" and h: "\<not> is_space (hd s)"
  obtain r where r: "s = rstrip s @ r" and sp: "list_all is_space r"
    using rstrip_split by blast
  show ?thesis
  proof (cases "rstrip s = []")
    case True
    with r ne sp h show ?thesis
      by (cases r) auto
  next
    case False
    with r show ?thesis
      by (metis hd_append2)
  qed
qed

lemma strip_trimmed: "trimmed_of s (strip s)"
proof -
  obtain l where l: "s = l @ lstrip s" and lsp: "list_all is_space l"
    using lstrip_split by blast
  obtain r where r: "lstrip s = strip s @ r" and rsp: "list_all is_space r"
    unfolding strip_def using rstrip_split by blast
  have ends: "strip s = [] \<or> (\<not> is_space (hd (strip s)) \<and> \<not> is_space (last (strip s)))"
  proof (cases "strip s = []")
    case True
    then show ?thesis by simp
  next
    case False
    then have ne: "lstrip s \<noteq> []"
      by (auto simp add: strip_def rstrip_def)
    then have "\<not> is_space (hd (lstrip s))"
      unfolding lstrip_def by (rule hd_dropWhile)
    with ne have "hd (strip s) = hd (lstrip s)"
      unfolding strip_def using rstrip_hd by blast
    moreover have "\<not> is_space (hd (lstrip s))"
      using ne unfolding lstrip_def by (rule hd_dropWhile)
    moreover have "\<not> is_space (last (strip s))"
      using False unfolding strip_def by (rule rstrip_last)
    ultimately show ?thesis by simp
  qed
  from l r have "s = l @ strip s @ r" by simp
  with lsp rsp ends show ?thesis
    unfolding trimmed_of_def by blast
qed

section \<open>Identifier normalisation\<close>

text \<open>
  C5. For every input string, \<open>ensure_pdf\<close> trims the surrounding whitespace and appends
  \<^verbatim>\<open>.pdf\<close> unless the trimmed text already ends with \<^verbatim>\<open>.pdf\<close> case-insensitively:
  the result is the trimmed text itself when that text ends with a dot followed by
  p, d, f in either case, and the trimmed text followed by \<^verbatim>\<open>.pdf\<close> otherwise. In
  particular \<^verbatim>\<open>17010026\<close> gives \<^verbatim>\<open>17010026.pdf\<close> and \<^verbatim>\<open>17010026.PDF\<close> is returned
  unchanged.
\<close>

theorem ensure_pdf_spec:
  "trimmed_of s (strip s) \<and>
   ensure_pdf s = (if ends_with_pdf_ci (strip s) then strip s else strip s @ ''.pdf'') \<and>
   ensure_pdf ''17010026'' = ''17010026.pdf'' \<and>
   ensure_pdf ''17010026.PDF'' = ''17010026.PDF''"
proof -
  have gen: "ensure_pdf s = (if ends_with_pdf_ci (strip s) then strip s else strip s @ ''.pdf'')"
    by (simp add: ensure_pdf_def str_or_empty_def Let_def endswith_lower_pdf)
  have e1: "ensure_pdf ''17010026'' = ''17010026.pdf''"
    by (simp add: ensure_pdf_def str_or_empty_def Let_def strip_def lstrip_def rstrip_def
        is_space_def endswith_def lower_def is_upper_def)
  have e2: "ensure_pdf ''17010026.PDF'' = ''17010026.PDF''"
    by (simp add: ensure_pdf_def str_or_empty_def Let_def strip_def lstrip_def rstrip_def
        is_space_def endswith_def lower_def is_upper_def)
  from strip_trimmed gen e1 e2 show ?thesis by blast
qed

theorem ensure_pdf_spec_witness:
  "ensure_pdf ''  20170413.Pdf '' = ''20170413.Pdf'' \<and> ensure_pdf '' 7 '' = ''7.pdf''"
proof -
  have a: "strip ''  20170413.Pdf '' = ''20170413.Pdf''"
    by (simp add: strip_def lstrip_def rstrip_def is_space_def)
  have b: "strip '' 7 '' = ''7''"
    by (simp add: strip_def lstrip_def rstrip_def is_space_def)
  have c: "ends_with_pdf_ci ''20170413.Pdf''"
    unfolding ends_with_pdf_ci_def by (rule exI [of _ "''20170413''"]) simp
  have d: "\<not> ends_with_pdf_ci ''7''"
    by (simp add: ends_with_pdf_ci_def)
  from ensure_pdf_spec [of "''  20170413.Pdf ''"] ensure_pdf_spec [of "'' 7 ''"] a b c d
  show ?thesis by simp
qed

section \<open>Facts about dictionaries and the header\<close>

lemma str_or_empty_id: "str_or_empty s = s"
  by (simp add: str_or_empty_def)

lemma dict_has_update: "dict_has (AList.update k v d) k' \<longleftrightarrow> k' = k \<or> dict_has d k'"
  by (simp add: dict_has_def update_conv')

lemma dict_has_foldl_update:
  "dict_has (foldl (\<lambda>m x. AList.update (kf x) (vf x) m) m0 xs) k \<longleftrightarrow>
     dict_has m0 k \<or> k \<in> kf ` set xs"
  by (induction xs arbitrary: m0) (auto simp add: dict_has_update)

lemma dict_has_Nil: "\<not> dict_has [] k"
  by (simp add: dict_has_def)

lemma dict_has_keys: "dict_has d k \<longleftrightarrow> k \<in> fst ` set d"
  by (simp add: dict_has_def map_of_eq_None_iff)

lemma dict_has_field_map: "dict_has (build_field_map found) k \<longleftrightarrow> direct_match found k"
  unfolding build_field_map_def direct_match_def header_keys_def
  by (simp add: dict_has_foldl_update dict_has_Nil str_or_empty_id)

lemma alt_map_fold:
  "build_alt_map fm = foldl (\<lambda>m x. AList.update (squash (fst x)) (snd x) m) [] fm"
  by (simp add: build_alt_map_def case_prod_unfold)

lemma dict_has_alt_map:
  "dict_has (build_alt_map (build_field_map found)) k \<longleftrightarrow> k \<in> set (map squash (header_keys found))"
proof -
  have "fst ` set (build_field_map found) = set (header_keys found)"
    using dict_has_field_map [of found] by (auto simp add: dict_has_keys direct_match_def)
  then have "(\<lambda>x. squash (fst x)) ` set (build_field_map found) = squash ` set (header_keys found)"
    by (metis image_image)
  then show ?thesis
    by (simp add: alt_map_fold dict_has_foldl_update dict_has_Nil)
qed

lemma first_candidate_None:
  "first_candidate cands alt = None \<longleftrightarrow> (\<forall>c \<in> set cands. \<not> dict_has alt (squash c))"
  by (induction cands) (auto simp add: Let_def dict_has_def)

lemma first_candidate_fuzzy:
  "first_candidate candidates (build_alt_map (build_field_map found)) \<noteq> None \<longleftrightarrow> fuzzy_match found"
  by (simp add: first_candidate_None dict_has_alt_map fuzzy_match_def)

lemma dict_has_remapped:
  "dict_has (foldl (remap_step fm alt) [] required) r \<longleftrightarrow>
     r \<in> set required \<and>
     (dict_has fm r \<or> (r = ''folio_correcto'' \<and> first_candidate candidates alt \<noteq> None))"
  by (auto simp add: required_def remap_step_def dict_has_update dict_has_Nil dict_has_def
      split: option.splits)

lemma resolve_columns_cases:
  "resolve_columns fieldnames =
     (if columns_resolved (found_names fieldnames)
      then (if \<forall>r \<in> set required. direct_match (found_names fieldnames) r
            then Inr (build_field_map (found_names fieldnames))
            else Inr (foldl (remap_step (build_field_map (found_names fieldnames))
                        (build_alt_map (build_field_map (found_names fieldnames)))) [] required))
      else Inl (SchemaError required (found_names fieldnames)))"
proof -
  let ?found = "found_names fieldnames"
  let ?fm = "build_field_map ?found"
  let ?alt = "build_alt_map ?fm"
  let ?re = "foldl (remap_step ?fm ?alt) [] required"
  have missing: "filter (\<lambda>r. \<not> dict_has ?fm r) required = [] \<longleftrightarrow>
      (\<forall>r \<in> set required. direct_match ?found r)"
    by (simp add: filter_empty_conv dict_has_field_map)
  have missing2: "filter (\<lambda>r. \<not> dict_has ?re r) required = [] \<longleftrightarrow> columns_resolved ?found"
    unfolding filter_empty_conv dict_has_remapped
    using first_candidate_fuzzy [of ?found]
    by (auto simp add: dict_has_field_map columns_resolved_def required_def)
  have all: "(\<forall>r \<in> set required. direct_match ?found r) \<Longrightarrow> columns_resolved ?found"
    by (simp add: columns_resolved_def required_def)
  have "resolve_columns fieldnames =
      (if filter (\<lambda>r. \<not> dict_has ?fm r) required \<noteq> [] then
         (if filter (\<lambda>r. \<not> dict_has ?re r) required \<noteq> [] then Inl (SchemaError required ?found)
          else Inr ?re)
       else Inr ?fm)"
    by (simp add: resolve_columns_def found_names_def Let_def)
  then show ?thesis
    using missing missing2 all by auto
qed

lemma set_update_sub: "set (AList.update k v al) \<subseteq> insert (k, v) (set al)"
  by (induction al) auto

lemma set_foldl_update:
  "set (foldl (\<lambda>m x. AList.update (kf x) (vf x) m) m0 xs) \<subseteq> set m0 \<union> (\<lambda>x. (kf x, vf x)) ` set xs"
proof (induction xs arbitrary: m0)
  case Nil
  then show ?case by simp
next
  case (Cons x xs)
  have "set (AList.update (kf x) (vf x) m0) \<subseteq> insert (kf x, vf x) (set m0)"
    by (rule set_update_sub)
  with Cons.IH [of "AList.update (kf x) (vf x) m0"] show ?case
    by auto
qed

lemma field_map_value:
  assumes "map_of (build_field_map found) k = Some h"
  shows "h \<in> set found \<and> lower (strip h) = k"
proof -
  from assms have "(k, h) \<in> set (build_field_map found)"
    by (rule map_of_SomeD)
  then have "(k, h) \<in> (\<lambda>f. (lower (strip (str_or_empty f)), f)) ` set found"
    unfolding build_field_map_def
    using set_foldl_update [of "\<lambda>f. lower (strip (str_or_empty f))" "\<lambda>f. f" "[]" found] by auto
  then show ?thesis
    by (auto simp add: str_or_empty_id)
qed

lemma alt_map_value:
  assumes "map_of (build_alt_map (build_field_map found)) k2 = Some h"
  shows "h \<in> set found \<and> squash (lower (strip h)) = k2"
proof -
  from assms have "(k2, h) \<in> set (build_alt_map (build_field_map found))"
    by (rule map_of_SomeD)
  then have "(k2, h) \<in> (\<lambda>x. (squash (fst x), snd x)) ` set (build_field_map found)"
    unfolding alt_map_fold
    using set_foldl_update [of "\<lambda>x. squash (fst x)" snd "[]" "build_field_map found"] by auto
  then obtain k where kh: "(k, h) \<in> set (build_field_map found)" and k2: "k2 = squash k"
    by auto
  from kh have "(k, h) \<in> (\<lambda>f. (lower (strip (str_or_empty f)), f)) ` set found"
    unfolding build_field_map_def
    using set_foldl_update [of "\<lambda>f. lower (strip (str_or_empty f))" "\<lambda>f. f" "[]" found] by auto
  with k2 show ?thesis
    by (auto simp add: str_or_empty_id)
qed

lemma first_candidate_Some:
  "first_candidate cands alt = Some h \<Longrightarrow> \<exists>c \<in> set cands. map_of alt (squash c) = Some h"
  by (induction cands) (auto simp add: Let_def split: if_splits)

lemma remapped_value:
  assumes "map_of (foldl (remap_step fm alt) [] required) r = Some h"
  shows "map_of fm r = Some h \<or>
         (r = ''folio_correcto'' \<and> \<not> dict_has fm r \<and> first_candidate candidates alt = Some h)"
  using assms
  by (auto simp add: required_def remap_step_def update_conv' dict_has_def
      split: option.splits if_splits)

lemma resolved_column:
  assumes ok: "resolve_columns fieldnames = Inr fm" and r: "r \<in> set required"
  shows "\<exists>h \<in> set (found_names fieldnames). map_of fm r = Some h \<and>
           (lower (strip h) = r \<or>
            (r = ''folio_correcto'' \<and> \<not> direct_match (found_names fieldnames) r \<and>
             squash (lower (strip h)) \<in> set (map squash candidates)))"
proof -
  let ?found = "found_names fieldnames"
  let ?fm = "build_field_map ?found"
  let ?alt = "build_alt_map ?fm"
  from ok have res: "columns_resolved ?found"
    by (simp add: resolve_columns_cases split: if_splits)
  show ?thesis
  proof (cases "\<forall>r \<in> set required. direct_match ?found r")
    case True
    with ok res have fm: "fm = ?fm"
      by (simp add: resolve_columns_cases)
    from True r have "dict_has ?fm r"
      by (simp add: dict_has_field_map)
    then obtain h where h: "map_of ?fm r = Some h"
      by (auto simp add: dict_has_def)
    with field_map_value [OF h] fm show ?thesis
      by auto
  next
    case False
    with ok res have fm: "fm = foldl (remap_step ?fm ?alt) [] required"
      by (simp add: resolve_columns_cases)
    from res r have "dict_has fm r"
      unfolding fm dict_has_remapped
      using first_candidate_fuzzy [of ?found]
      by (auto simp add: columns_resolved_def required_def dict_has_field_map)
    then obtain h where h: "map_of fm r = Some h"
      by (auto simp add: dict_has_def)
    from h have "map_of ?fm r = Some h \<or>
        (r = ''folio_correcto'' \<and> \<not> dict_has ?fm r \<and> first_candidate candidates ?alt = Some h)"
      unfolding fm by (rule remapped_value)
    then show ?thesis
    proof
      assume a: "map_of ?fm r = Some h"
      with field_map_value [OF a] h show ?thesis by auto
    next
      assume a: "r = ''folio_correcto'' \<and> \<not> dict_has ?fm r \<and> first_candidate candidates ?alt = Some h"
      then obtain c where c: "c \<in> set candidates" and m: "map_of ?alt (squash c) = Some h"
        using first_candidate_Some by blast
      from alt_map_value [OF m] c a h show ?thesis
        by (auto simp add: dict_has_field_map)
    qed
  qed
qed

lemma strip_plain [simp]:
  "strip ''path'' = ''path''" "strip ''pa th'' = ''pa th''" "strip ''folio'' = ''folio''"
  "strip ''folio_correcto'' = ''folio_correcto''"
  by (simp_all add: strip_def lstrip_def rstrip_def is_space_def)

section \<open>Facts about the row loop\<close>

lemma read_rows_acc:
  "read_rows fm i raws (rows, msgs) =
     (rows @ [r. Parsed r \<leftarrow> map (\<lambda>(j, raw). parse_row fm j raw) (zip [i ..< i + length raws] raws)],
      msgs @ [m. Skipped m \<leftarrow> map (\<lambda>(j, raw). parse_row fm j raw) (zip [i ..< i + length raws] raws)])"
proof (induction raws arbitrary: i rows msgs)
  case Nil
  then show ?case by simp
next
  case (Cons raw raws)
  have up: "[i ..< i + length (raw # raws)] = i # [Suc i ..< Suc i + length raws]"
    by (simp add: upt_rec)
  show ?case
    unfolding up by (cases "parse_row fm i raw") (simp_all add: Cons.IH)
qed

lemma cell_Inr:
  "cell fm raw key = Inr v \<longleftrightarrow>
     (\<exists>column c. map_of fm key = Some column \<and> map_of raw column = Some c \<and>
        v = strip (opt_or_empty c))"
  by (auto simp add: cell_def dict_get_def split: option.splits)

lemma parse_row_Parsed:
  "parse_row fm i raw = Parsed r \<longleftrightarrow>
     (\<exists>rp fo fk. cell fm raw ''path'' = Inr rp \<and> cell fm raw ''folio'' = Inr fo \<and>
        cell fm raw ''folio_correcto'' = Inr fk \<and> rp \<noteq> [] \<and> fo \<noteq> [] \<and> fk \<noteq> [] \<and>
        r = \<lparr> rel_path = rp, folio = fo, folio_ok = fk, rownum = i \<rparr>)"
  by (auto simp add: parse_row_def split: sum.splits key_error.splits)

lemma parse_row_Skipped:
  "parse_row fm i raw = Skipped m \<Longrightarrow> m = RowIncomplete i \<or> (\<exists>k. m = RowMissingColumn i k)"
  by (auto simp add: parse_row_def split: sum.splits key_error.splits if_splits)

lemma strip_headers [simp]:
  "strip ''Path'' = ''Path''" "strip ''Folio'' = ''Folio''"
  "strip ''Folio Correcto'' = ''Folio Correcto''"
  by (simp_all add: strip_def lstrip_def rstrip_def is_space_def)

lemma strip_cells [simp]:
  "strip '' d '' = ''d''" "strip ''d'' = ''d''" "strip ''1'' = ''1''" "strip ''2'' = ''2''"
  "strip ''  '' = []" "strip [] = []"
  by (simp_all add: strip_def lstrip_def rstrip_def is_space_def)

section \<open>Dialect detection\<close>

text \<open>
  C8. When the automatic detection fails (the sniffer raises on the sample, the first
  2048 characters of the file), \<open>sniff_csv_dialect\<close> returns a dialect whose delimiter
  is the comma if the sample contains a comma, else the tab if the sample contains a
  tab, else the semicolon, whose quote character is the double quote, with doubled quotes
  and the skipping of initial blanks enabled.
\<close>

theorem sniff_fallback:
  assumes "sniff lib (take 2048 content) [CHR '','', CHR '';'', CHR 0x09, CHR ''|''] = None"
  shows "delimiter (sniff_csv_dialect lib content) =
           (if CHR '','' \<in> set (take 2048 content) then CHR '',''
            else if CHR 0x09 \<in> set (take 2048 content) then CHR 0x09 else CHR '';'') \<and>
         quotechar (sniff_csv_dialect lib content) = Some (CHR 0x22) \<and>
         doublequote (sniff_csv_dialect lib content) \<and>
         skipinitialspace (sniff_csv_dialect lib content)"
  using assms by (simp add: sniff_csv_dialect_def SimpleDialect_def)

theorem sniff_fallback_witness:
  "sniff (table_lib [] []) (take 2048 ''path;folio'') [CHR '','', CHR '';'', CHR 0x09, CHR ''|''] = None \<and>
   delimiter (sniff_csv_dialect (table_lib [] []) ''path;folio'') = CHR '';'' \<and>
   delimiter (sniff_csv_dialect (table_lib [] []) (''path'' @ [CHR 0x09] @ ''fo;lio'')) = CHR 0x09 \<and>
   delimiter (sniff_csv_dialect (table_lib [] []) (''pa;th'' @ [CHR 0x09] @ ''fo,lio'')) = CHR '','' \<and>
   skipinitialspace (sniff_csv_dialect (table_lib [] []) ''path;folio'')"
proof -
  have n: "\<And>s. sniff (table_lib [] []) s [CHR '','', CHR '';'', CHR 0x09, CHR ''|''] = None"
    by (simp add: table_lib_def)
  show ?thesis
    using sniff_fallback [OF n, of "''path;folio''"]
      sniff_fallback [OF n, of "''path'' @ [CHR 0x09] @ ''fo;lio''"]
      sniff_fallback [OF n, of "''pa;th'' @ [CHR 0x09] @ ''fo,lio''"]
    by (simp add: table_lib_def)
qed

section \<open>Header normalisation\<close>

text \<open>
  C4, as the specification states it, fails on the script: with the header
  \<^verbatim>\<open>pa th, folio, folio_correcto\<close> every required column is resolved in the
  specification's sense (\<^verbatim>\<open>pa th\<close> without its space is \<^verbatim>\<open>path\<close>, and the
  script's own table of squashed names has the key \<^verbatim>\<open>path\<close>), yet the script
  reports the missing columns and stops: it tries the fuzzy match for
  \<^verbatim>\<open>folio_correcto\<close> only.
\<close>

theorem fuzzy_every_column_counterexample:
  "spec_resolved [''pa th'', ''folio'', ''folio_correcto''] ''path'' \<and>
   spec_resolved [''pa th'', ''folio'', ''folio_correcto''] ''folio'' \<and>
   spec_resolved [''pa th'', ''folio'', ''folio_correcto''] ''folio_correcto'' \<and>
   dict_has (build_alt_map (build_field_map [''pa th'', ''folio'', ''folio_correcto''])) ''path'' \<and>
   resolve_columns (Some [''pa th'', ''folio'', ''folio_correcto'']) =
     Inl (SchemaError [''path'', ''folio'', ''folio_correcto'']
            [''pa th'', ''folio'', ''folio_correcto''])"
  by (simp add: spec_resolved_def header_keys_def synonyms_def strip_spaces_hyphens_def
      lower_def is_upper_def build_field_map_def build_alt_map_def str_or_empty_def
      dict_has_def squash_def remove_char_def replace_char_def resolve_columns_def Let_def
      required_def remap_step_def candidates_def found_names_def)

text \<open>
  C4, amended. The header is accepted exactly when \<^verbatim>\<open>path\<close> and \<^verbatim>\<open>folio\<close> match
  a lower-cased, trimmed header name directly, and \<^verbatim>\<open>folio_correcto\<close> matches one
  directly or, failing that, by the fuzzy match: a header name that, with its spaces
  removed and its hyphens turned into underscores, equals one of the four candidate
  spellings treated the same way. Otherwise the script fails with the required and the
  found names. On success every required column is mapped to a header of the file that
  matches it in the way just described.
\<close>

theorem resolve_columns_amended:
  "((\<exists>fm. resolve_columns fieldnames = Inr fm) \<longleftrightarrow> columns_resolved (found_names fieldnames)) \<and>
   (\<not> columns_resolved (found_names fieldnames) \<longrightarrow>
      resolve_columns fieldnames = Inl (SchemaError required (found_names fieldnames))) \<and>
   (resolve_columns fieldnames = Inr fm \<and> r \<in> set required \<longrightarrow>
      (\<exists>h \<in> set (found_names fieldnames). map_of fm r = Some h \<and>
         (lower (strip h) = r \<or>
          (r = ''folio_correcto'' \<and> \<not> direct_match (found_names fieldnames) r \<and>
           squash (lower (strip h)) \<in> set (map squash candidates)))))"
proof -
  have a: "(\<exists>fm. resolve_columns fieldnames = Inr fm) \<longleftrightarrow> columns_resolved (found_names fieldnames)"
    by (simp add: resolve_columns_cases)
  have b: "\<not> columns_resolved (found_names fieldnames) \<longrightarrow>
      resolve_columns fieldnames = Inl (SchemaError required (found_names fieldnames))"
    by (simp add: resolve_columns_cases)
  from a b resolved_column [of fieldnames fm r] show ?thesis
    by blast
qed

theorem resolve_columns_amended_witness:
  "columns_resolved (found_names (Some [''Path'', ''Folio'', ''Folio Correcto''])) \<and>
   \<not> direct_match [''Path'', ''Folio'', ''Folio Correcto''] ''folio_correcto'' \<and>
   resolve_columns (Some [''Path'', ''Folio'', ''Folio Correcto'']) =
     Inr [(''path'', ''Path''), (''folio'', ''Folio''), (''folio_correcto'', ''Folio Correcto'')] \<and>
   ''folio_correcto'' \<in> set required \<and>
   \<not> columns_resolved (found_names (Some [''pa th'', ''folio'', ''folio_correcto''])) \<and>
   resolve_columns (Some [''pa th'', ''folio'', ''folio_correcto'']) =
     Inl (SchemaError required [''pa th'', ''folio'', ''folio_correcto''])"
proof -
  let ?h = "[''Path'', ''Folio'', ''Folio Correcto'']"
  let ?fm = "[(''path'', ''Path''), (''folio'', ''Folio''), (''folio_correcto'', ''Folio Correcto'')]"
  let ?b = "[''pa th'', ''folio'', ''folio_correcto'']"
  have keys: "header_keys ?h = [''path'', ''folio'', ''folio correcto'']"
    by (simp add: header_keys_def lower_def is_upper_def)
  have ok: "columns_resolved (found_names (Some ?h))"
    by (simp add: columns_resolved_def found_names_def direct_match_def fuzzy_match_def keys
        candidates_def squash_def remove_char_def replace_char_def)
  have nd: "\<not> direct_match ?h ''folio_correcto''"
    by (simp add: direct_match_def keys)
  have res: "resolve_columns (Some ?h) = Inr ?fm"
    by (simp add: resolve_columns_def found_names_def Let_def build_field_map_def
        build_alt_map_def str_or_empty_def lower_def is_upper_def required_def dict_has_def
        remap_step_def candidates_def squash_def remove_char_def replace_char_def)
  have rq: "''folio_correcto'' \<in> set required"
    by (simp add: required_def)
  have bad: "\<not> columns_resolved (found_names (Some ?b))"
    by (simp add: columns_resolved_def found_names_def direct_match_def header_keys_def
        lower_def is_upper_def)
  from resolve_columns_amended [of "Some ?h" ?fm "''folio_correcto''"] ok nd res rq
    resolve_columns_amended [of "Some ?b"] bad
  show ?thesis
    by (simp add: found_names_def)
qed

text \<open>
  C6. If a required column is still unresolved after the fuzzy match, ingestion fails:
  \<open>load_rows\<close> stops with the list of the required names and the list of the found
  header names, whatever the data rows are, and the run ends with exit status 1, having
  printed those two lists only and with the filesystem as it was.
\<close>

theorem schema_error_halts:
  assumes "dict_reader lib content (sniff_csv_dialect lib content) = (fieldnames, raws)"
      and "\<not> columns_resolved (found_names fieldnames)"
  shows "load_rows lib content = Inl (SchemaError required (found_names fieldnames)) \<and>
         main ops lib base_dir content go f =
           \<lparr> exit_status = 1, final_fs = f,
             printed = [EvSchemaError required (found_names fieldnames)] \<rparr>"
proof -
  from assms(2) have "resolve_columns fieldnames = Inl (SchemaError required (found_names fieldnames))"
    by (simp add: resolve_columns_cases)
  with assms(1) have l: "load_rows lib content = Inl (SchemaError required (found_names fieldnames))"
    by (simp add: load_rows_def Let_def)
  then show ?thesis
    by (simp add: main_def)
qed

theorem schema_error_halts_witness:
  "dict_reader (table_lib [''pa th'', ''folio'', ''folio_correcto''] [[(''pa th'', Some ''x'')]]) []
     (sniff_csv_dialect (table_lib [''pa th'', ''folio'', ''folio_correcto''] [[(''pa th'', Some ''x'')]]) [])
     = (Some [''pa th'', ''folio'', ''folio_correcto''], [[(''pa th'', Some ''x'')]]) \<and>
   \<not> columns_resolved (found_names (Some [''pa th'', ''folio'', ''folio_correcto''])) \<and>
   main plain_ops (table_lib [''pa th'', ''folio'', ''folio_correcto''] [[(''pa th'', Some ''x'')]])
      ''base'' [] (Some ''1'') [''base/d/a.pdf''] =
     \<lparr> exit_status = 1, final_fs = [''base/d/a.pdf''],
       printed = [EvSchemaError [''path'', ''folio'', ''folio_correcto'']
                    [''pa th'', ''folio'', ''folio_correcto'']] \<rparr>"
proof -
  let ?b = "[''pa th'', ''folio'', ''folio_correcto'']"
  let ?lib = "table_lib ?b [[(''pa th'', Some ''x'')]]"
  have rd: "dict_reader ?lib [] (sniff_csv_dialect ?lib []) = (Some ?b, [[(''pa th'', Some ''x'')]])"
    by (simp add: table_lib_def)
  have bad: "\<not> columns_resolved (found_names (Some ?b))"
    by (simp add: columns_resolved_def found_names_def direct_match_def header_keys_def
        lower_def is_upper_def)
  from schema_error_halts [OF rd bad, of plain_ops "''base''" "Some ''1''" "[''base/d/a.pdf'']"] rd bad
  show ?thesis
    by (simp add: found_names_def required_def)
qed

section \<open>Row parsing\<close>

text \<open>
  C7. Once the header is resolved, \<open>load_rows\<close> never fails: its records are the
  parsed rows and its messages the skipped rows, both in file order, of the data rows
  numbered from 2. A row is parsed exactly when the three mapped columns can be looked up
  and their trimmed values are all non-empty; the record holds the trimmed values and the
  row's number. Every other row is skipped with a message that carries its number, either
  as incomplete or as lacking a column.
\<close>

theorem load_rows_rows:
  assumes "dict_reader lib content (sniff_csv_dialect lib content) = (fieldnames, raws)"
      and "resolve_columns fieldnames = Inr fm"
  shows "load_rows lib content =
           Inr ([r. Parsed r \<leftarrow> row_outcomes fm raws], [m. Skipped m \<leftarrow> row_outcomes fm raws]) \<and>
         length (row_outcomes fm raws) = length raws \<and>
         (\<forall>j < length raws. row_outcomes fm raws ! j = parse_row fm (j + 2) (raws ! j)) \<and>
         (parse_row fm i raw = Parsed r \<longleftrightarrow>
            (\<exists>cp cf ck vp vf vk.
               map_of fm ''path'' = Some cp \<and> map_of raw cp = Some vp \<and>
               map_of fm ''folio'' = Some cf \<and> map_of raw cf = Some vf \<and>
               map_of fm ''folio_correcto'' = Some ck \<and> map_of raw ck = Some vk \<and>
               strip (opt_or_empty vp) \<noteq> [] \<and> strip (opt_or_empty vf) \<noteq> [] \<and>
               strip (opt_or_empty vk) \<noteq> [] \<and>
               r = \<lparr> rel_path = strip (opt_or_empty vp), folio = strip (opt_or_empty vf),
                     folio_ok = strip (opt_or_empty vk), rownum = i \<rparr>)) \<and>
         (parse_row fm i raw = Skipped m \<longrightarrow>
            m = RowIncomplete i \<or> (\<exists>k. m = RowMissingColumn i k))"
proof -
  have l: "load_rows lib content = Inr (read_rows fm 2 raws ([], []))"
    using assms by (simp add: load_rows_def Let_def)
  have a: "load_rows lib content =
      Inr ([r. Parsed r \<leftarrow> row_outcomes fm raws], [m. Skipped m \<leftarrow> row_outcomes fm raws])"
    unfolding l read_rows_acc row_outcomes_def by simp
  have b: "length (row_outcomes fm raws) = length raws"
    unfolding row_outcomes_def length_map length_zip length_upt by simp
  have c: "\<forall>j < length raws. row_outcomes fm raws ! j = parse_row fm (j + 2) (raws ! j)"
    unfolding row_outcomes_def by (simp add: add.commute del: upt_Suc)
  have d: "parse_row fm i raw = Parsed r \<longleftrightarrow>
            (\<exists>cp cf ck vp vf vk.
               map_of fm ''path'' = Some cp \<and> map_of raw cp = Some vp \<and>
               map_of fm ''folio'' = Some cf \<and> map_of raw cf = Some vf \<and>
               map_of fm ''folio_correcto'' = Some ck \<and> map_of raw ck = Some vk \<and>
               strip (opt_or_empty vp) \<noteq> [] \<and> strip (opt_or_empty vf) \<noteq> [] \<and>
               strip (opt_or_empty vk) \<noteq> [] \<and>
               r = \<lparr> rel_path = strip (opt_or_empty vp), folio = strip (opt_or_empty vf),
                     folio_ok = strip (opt_or_empty vk), rownum = i \<rparr>)"
    unfolding parse_row_Parsed cell_Inr by blast
  from a b c d parse_row_Skipped [of fm i raw m] show ?thesis
    by blast
qed

theorem load_rows_rows_witness:
  "dict_reader (table_lib [''path'', ''folio'', ''folio_correcto'']
       [[(''path'', Some '' d ''), (''folio'', Some ''1''), (''folio_correcto'', Some ''2'')],
        [(''path'', Some ''d''), (''folio'', Some ''  ''), (''folio_correcto'', Some ''2'')],
        [(''path'', Some ''d''), (''folio_correcto'', Some ''2'')],
        [(''path'', Some ''d''), (''folio'', Some ''1''), (''folio_correcto'', None)],
        [(''path'', Some ''d''), (''folio'', Some ''2''), (''folio_correcto'', Some ''1'')]]) []
     (sniff_csv_dialect (table_lib [''path'', ''folio'', ''folio_correcto'']
       [[(''path'', Some '' d ''), (''folio'', Some ''1''), (''folio_correcto'', Some ''2'')],
        [(''path'', Some ''d''), (''folio'', Some ''  ''), (''folio_correcto'', Some ''2'')],
        [(''path'', Some ''d''), (''folio_correcto'', Some ''2'')],
        [(''path'', Some ''d''), (''folio'', Some ''1''), (''folio_correcto'', None)],
        [(''path'', Some ''d''), (''folio'', Some ''2''), (''folio_correcto'', Some ''1'')]]) [])
   = (Some [''path'', ''folio'', ''folio_correcto''],
       [[(''path'', Some '' d ''), (''folio'', Some ''1''), (''folio_correcto'', Some ''2'')],
        [(''path'', Some ''d''), (''folio'', Some ''  ''), (''folio_correcto'', Some ''2'')],
        [(''path'', Some ''d''), (''folio_correcto'', Some ''2'')],
        [(''path'', Some ''d''), (''folio'', Some ''1''), (''folio_correcto'', None)],
        [(''path'', Some ''d''), (''folio'', Some ''2''), (''folio_correcto'', Some ''1'')]]) \<and>
   resolve_columns (Some [''path'', ''folio'', ''folio_correcto'']) =
     Inr [(''path'', ''path''), (''folio'', ''folio''), (''folio_correcto'', ''folio_correcto'')] \<and>
   load_rows (table_lib [''path'', ''folio'', ''folio_correcto'']
       [[(''path'', Some '' d ''), (''folio'', Some ''1''), (''folio_correcto'', Some ''2'')],
        [(''path'', Some ''d''), (''folio'', Some ''  ''), (''folio_correcto'', Some ''2'')],
        [(''path'', Some ''d''), (''folio_correcto'', Some ''2'')],
        [(''path'', Some ''d''), (''folio'', Some ''1''), (''folio_correcto'', None)],
        [(''path'', Some ''d''), (''folio'', Some ''2''), (''folio_correcto'', Some ''1'')]]) []
   = Inr ([\<lparr> rel_path = ''d'', folio = ''1'', folio_ok = ''2'', rownum = 2 \<rparr>,
           \<lparr> rel_path = ''d'', folio = ''2'', folio_ok = ''1'', rownum = 6 \<rparr>],
          [RowIncomplete 3, RowMissingColumn 4 ''folio'', RowIncomplete 5])"
proof -
  let ?h = "[''path'', ''folio'', ''folio_correcto'']"
  let ?fm = "[(''path'', ''path''), (''folio'', ''folio''), (''folio_correcto'', ''folio_correcto'')]"
  let ?raws = "[[(''path'', Some '' d ''), (''folio'', Some ''1''), (''folio_correcto'', Some ''2'')],
        [(''path'', Some ''d''), (''folio'', Some ''  ''), (''folio_correcto'', Some ''2'')],
        [(''path'', Some ''d''), (''folio_correcto'', Some ''2'')],
        [(''path'', Some ''d''), (''folio'', Some ''1''), (''folio_correcto'', None)],
        [(''path'', Some ''d''), (''folio'', Some ''2''), (''folio_correcto'', Some ''1'')]]"
  have rd: "dict_reader (table_lib ?h ?raws) [] (sniff_csv_dialect (table_lib ?h ?raws) [])
      = (Some ?h, ?raws)"
    by (simp add: table_lib_def)
  have res: "resolve_columns (Some ?h) = Inr ?fm"
    by (simp add: resolve_columns_def found_names_def Let_def build_field_map_def
        str_or_empty_def lower_def is_upper_def required_def dict_has_def)
  have up: "[2 ..< 2 + length ?raws] = [2, 3, 4, 5, 6]"
    by (simp add: upt_rec)
  have outs: "row_outcomes ?fm ?raws =
      [Parsed \<lparr> rel_path = ''d'', folio = ''1'', folio_ok = ''2'', rownum = 2 \<rparr>,
       Skipped (RowIncomplete 3), Skipped (RowMissingColumn 4 ''folio''),
       Skipped (RowIncomplete 5),
       Parsed \<lparr> rel_path = ''d'', folio = ''2'', folio_ok = ''1'', rownum = 6 \<rparr>]"
    unfolding row_outcomes_def up
    by (simp add: parse_row_def cell_def dict_get_def opt_or_empty_def)
  from load_rows_rows [OF rd res] rd res show ?thesis
    unfolding outs by simp
qed

section \<open>Facts about the planner and the executor\<close>

lemma plan_step_entry:
  "plan_step ops f base_dir st r =
     \<lparr> plan = plan st @ [entry_of ops f base_dir r],
       n_exists = n_exists st + (if source_found ops f base_dir r then 1 else 0),
       n_missing = n_missing st + (if source_found ops f base_dir r then 0 else 1),
       n_conflicts = n_conflicts st + (if conflicting ops f base_dir r then 1 else 0),
       preview = preview st @
         [EvPreviewItem (rownum r) (src_path ops f base_dir r) (dst_path ops f base_dir r)
            (if source_found ops f base_dir r
             then [SrcFound] @ (if conflicting ops f base_dir r then [DstConflict] else [])
             else [SrcMissing])] \<rparr>"
proof -
  have eq: "fs_resolve ops f (dst_path ops f base_dir r) = fs_resolve ops f (src_path ops f base_dir r)
      \<longleftrightarrow> fs_resolve ops f (src_path ops f base_dir r) = fs_resolve ops f (dst_path ops f base_dir r)"
    by auto
  show ?thesis
    by (simp add: plan_step_def Let_def entry_of_def source_found_def conflicting_def eq)
qed

lemma plan_foldl:
  "foldl (plan_step ops f base_dir) st rows =
     \<lparr> plan = plan st @ map (entry_of ops f base_dir) rows,
       n_exists = n_exists st + length (filter (source_found ops f base_dir) rows),
       n_missing = n_missing st + length (filter (\<lambda>r. \<not> source_found ops f base_dir r) rows),
       n_conflicts = n_conflicts st + length (filter (conflicting ops f base_dir) rows),
       preview = preview st @
         map (\<lambda>r. EvPreviewItem (rownum r) (src_path ops f base_dir r) (dst_path ops f base_dir r)
                (if source_found ops f base_dir r
                 then [SrcFound] @ (if conflicting ops f base_dir r then [DstConflict] else [])
                 else [SrcMissing])) rows \<rparr>"
proof (induction rows arbitrary: st)
  case Nil
  then show ?case by simp
next
  case (Cons r rows)
  show ?case
    unfolding foldl_Cons Cons.IH by (simp add: plan_step_entry)
qed

lemma make_plan_plan: "plan (make_plan ops f base_dir rows) = map (entry_of ops f base_dir) rows"
  by (simp add: make_plan_def plan_foldl)

lemma make_plan_counts:
  "n_exists (make_plan ops f base_dir rows) = length (filter (source_found ops f base_dir) rows)"
  "n_missing (make_plan ops f base_dir rows)
     = length (filter (\<lambda>r. \<not> source_found ops f base_dir r) rows)"
  "n_conflicts (make_plan ops f base_dir rows) = length (filter (conflicting ops f base_dir) rows)"
  by (simp_all add: make_plan_def plan_foldl)

lemma exec_item_conflict:
  assumes "fs_exists ops (fs st) (dst it)"
      and "fs_resolve ops (fs st) (src it) \<noteq> fs_resolve ops (fs st) (dst it)"
  shows "exec_item ops st it =
           st\<lparr> skipped := skipped st + 1,
               log := log st @ [if can_move it then EvOmittedDstExists (src it) (dst it)
                                else EvOmittedCannotMove (src it) (dst it)] \<rparr>"
  using assms by (simp add: exec_item_def)

lemma exec_item_cannot_move:
  assumes "\<not> can_move it"
  shows "exec_item ops st it =
           st\<lparr> skipped := skipped st + 1, log := log st @ [EvOmittedCannotMove (src it) (dst it)] \<rparr>"
  using assms by (simp add: exec_item_def)

lemma exec_item_already_ok:
  assumes "can_move it"
      and "fs_resolve ops (fs st) (src it) = fs_resolve ops (fs st) (dst it)"
  shows "exec_item ops st it = st\<lparr> log := log st @ [EvAlreadyOk (src it)] \<rparr>"
  using assms by (simp add: exec_item_def)

lemma planned_can_move:
  assumes "it \<in> set (plan (make_plan ops f base_dir rows))"
  shows "can_move it \<longleftrightarrow>
           fs_exists ops f (src it) \<and>
           (\<not> fs_exists ops f (dst it) \<or> fs_resolve ops f (dst it) = fs_resolve ops f (src it))"
  using assms by (auto simp add: make_plan_plan entry_of_def)

lemma exec_item_bound:
  "moved (exec_item ops st it) + skipped (exec_item ops st it) \<le> moved st + skipped st + 1"
  by (simp add: exec_item_def split: sum.splits)

lemma execute_bound:
  "moved (execute ops st items) + skipped (execute ops st items)
     \<le> moved st + skipped st + length items"
proof (induction items arbitrary: st)
  case Nil
  then show ?case by (simp add: execute_def)
next
  case (Cons it items)
  have "moved (execute ops st (it # items)) + skipped (execute ops st (it # items))
      = moved (execute ops (exec_item ops st it) items)
        + skipped (execute ops (exec_item ops st it) items)"
    by (simp add: execute_def)
  also have "\<dots> \<le> moved (exec_item ops st it) + skipped (exec_item ops st it) + length items"
    by (rule Cons.IH)
  also have "\<dots> \<le> moved st + skipped st + 1 + length items"
    using exec_item_bound [of ops st it] by simp
  finally show ?case by simp
qed

lemma execute_append:
  "execute ops st (pre @ it # post) = execute ops (exec_item ops (execute ops st pre) it) post"
  by (simp add: execute_def)

lemma exec_item_log:
  "\<exists>e. log (exec_item ops st it) = log st @ [e] \<and>
       (\<not> can_move it \<longrightarrow> e = EvOmittedCannotMove (src it) (dst it)) \<and>
       (can_move it \<longrightarrow> e = EvAlreadyOk (src it) \<or> e = EvOmittedDstExists (src it) (dst it) \<or>
          e = EvRenamed (src it) (dst it) \<or> (\<exists>m. e = EvError (src it) (dst it) m))"
  by (simp add: exec_item_def split: sum.splits)

lemma execute_Cons: "execute ops st (it # items) = execute ops (exec_item ops st it) items"
  by (simp add: execute_def)

lemma execute_Nil: "execute ops st [] = st"
  by (simp add: execute_def)

lemma execute_log_mono: "set (log st) \<subseteq> set (log (execute ops st items))"
proof (induction items arbitrary: st)
  case Nil
  then show ?case by (simp add: execute_Nil)
next
  case (Cons it items)
  obtain e where "log (exec_item ops st it) = log st @ [e]"
    using exec_item_log [of ops st it] by blast
  then have "set (log st) \<subseteq> set (log (exec_item ops st it))"
    by auto
  with Cons.IH [of "exec_item ops st it"] show ?case
    unfolding execute_Cons by blast
qed

lemma execute_renamed_origin:
  assumes "EvRenamed s d \<in> set (log (execute ops st items))"
  shows "EvRenamed s d \<in> set (log st) \<or> (\<exists>it \<in> set items. src it = s \<and> dst it = d \<and> can_move it)"
  using assms
proof (induction items arbitrary: st)
  case Nil
  then show ?case by (simp add: execute_Nil)
next
  case (Cons it items)
  from Cons.prems have "EvRenamed s d \<in> set (log (execute ops (exec_item ops st it) items))"
    by (simp add: execute_Cons)
  then have "EvRenamed s d \<in> set (log (exec_item ops st it)) \<or>
      (\<exists>it \<in> set items. src it = s \<and> dst it = d \<and> can_move it)"
    by (rule Cons.IH)
  moreover have "EvRenamed s d \<in> set (log (exec_item ops st it)) \<Longrightarrow>
      EvRenamed s d \<in> set (log st) \<or> (src it = s \<and> dst it = d \<and> can_move it)"
    using exec_item_log [of ops st it] by auto
  ultimately show ?case by auto
qed

lemma execute_already_ok_origin:
  assumes "EvAlreadyOk s \<in> set (log (execute ops st items))"
  shows "EvAlreadyOk s \<in> set (log st) \<or> (\<exists>it \<in> set items. src it = s \<and> can_move it)"
  using assms
proof (induction items arbitrary: st)
  case Nil
  then show ?case by (simp add: execute_Nil)
next
  case (Cons it items)
  from Cons.prems have "EvAlreadyOk s \<in> set (log (execute ops (exec_item ops st it) items))"
    by (simp add: execute_Cons)
  then have "EvAlreadyOk s \<in> set (log (exec_item ops st it)) \<or>
      (\<exists>it \<in> set items. src it = s \<and> can_move it)"
    by (rule Cons.IH)
  moreover have "EvAlreadyOk s \<in> set (log (exec_item ops st it)) \<Longrightarrow>
      EvAlreadyOk s \<in> set (log st) \<or> (src it = s \<and> can_move it)"
    using exec_item_log [of ops st it] by auto
  ultimately show ?case by auto
qed

lemma execute_omitted:
  assumes "it \<in> set items" and "\<not> can_move it"
  shows "EvOmittedCannotMove (src it) (dst it) \<in> set (log (execute ops st items))"
  using assms
proof (induction items arbitrary: st)
  case Nil
  then show ?case by simp
next
  case (Cons x items)
  show ?case
  proof (cases "it = x")
    case True
    with Cons.prems have "EvOmittedCannotMove (src it) (dst it) \<in> set (log (exec_item ops st x))"
      by (simp add: exec_item_cannot_move)
    then show ?thesis
      unfolding execute_Cons using execute_log_mono [of "exec_item ops st x" ops items] by blast
  next
    case False
    with Cons.prems have "it \<in> set items" by simp
    then show ?thesis
      unfolding execute_Cons using Cons.IH Cons.prems(2) by blast
  qed
qed

lemma make_plan_preview:
  "preview (make_plan ops f base_dir rows) =
     map (\<lambda>r. EvPreviewItem (rownum r) (src_path ops f base_dir r) (dst_path ops f base_dir r)
            (if source_found ops f base_dir r
             then [SrcFound] @ (if conflicting ops f base_dir r then [DstConflict] else [])
             else [SrcMissing])) rows"
  by (simp add: make_plan_def plan_foldl)

lemma main_executed:
  assumes "load_rows lib content = Inr (rows, msgs)" and "rows \<noteq> []" and "strip a = ''1''"
  shows "main ops lib base_dir content (Some a) f =
           \<lparr> exit_status = 0,
             final_fs = fs (execute ops (start f) (plan (make_plan ops f base_dir rows))),
             printed = map EvRow msgs @ [EvPreviewHeader] @ preview (make_plan ops f base_dir rows)
               @ [EvSummary (n_exists (make_plan ops f base_dir rows))
                    (n_missing (make_plan ops f base_dir rows))
                    (n_conflicts (make_plan ops f base_dir rows))]
               @ [EvApplyHeader]
               @ log (execute ops (start f) (plan (make_plan ops f base_dir rows)))
               @ [EvResult (moved (execute ops (start f) (plan (make_plan ops f base_dir rows))))
                    (skipped (execute ops (start f) (plan (make_plan ops f base_dir rows))))] \<rparr>"
  using assms by (simp add: main_def Let_def)

lemma main_renamed_executed:
  assumes "EvRenamed s d \<in> set (printed (main ops lib base_dir content go f))"
  shows "\<exists>rows msgs a. load_rows lib content = Inr (rows, msgs) \<and> rows \<noteq> [] \<and>
           go = Some a \<and> strip a = ''1''"
proof (cases "load_rows lib content")
  case (Inl e)
  with assms show ?thesis
    by (cases e) (simp add: main_def)
next
  case (Inr p)
  obtain rows msgs where p: "p = (rows, msgs)"
    by (cases p)
  have nopre: "EvRenamed s d \<notin> set (preview (make_plan ops f base_dir rows))"
    by (auto simp add: make_plan_preview)
  show ?thesis
  proof (cases "rows = []")
    case True
    with assms Inr p show ?thesis
      by (auto simp add: main_def)
  next
    case False
    show ?thesis
    proof (cases go)
      case None
      with assms Inr p False nopre show ?thesis
        by (auto simp add: main_def Let_def)
    next
      case (Some a)
      show ?thesis
      proof (cases "strip a = ''1''")
        case True
        with Inr p False Some show ?thesis by simp
      next
        case no: False
        with assms Inr p False Some nopre show ?thesis
          by (auto simp add: main_def Let_def)
      qed
    qed
  qed
qed

lemma ensure_pdf_abc [simp]:
  "ensure_pdf ''a'' = ''a.pdf''" "ensure_pdf ''b'' = ''b.pdf''" "ensure_pdf ''c'' = ''c.pdf''"
  "ensure_pdf ''a.pdf'' = ''a.pdf''" "ensure_pdf ''A.PDF'' = ''A.PDF''"
  by (simp_all add: ensure_pdf_def str_or_empty_def Let_def strip_def lstrip_def rstrip_def
      is_space_def endswith_def lower_def is_upper_def)

lemma plain_paths_abc [simp]:
  "src_path plain_ops f ''base'' \<lparr> rel_path = ''d'', folio = x, folio_ok = y, rownum = n \<rparr>
     = ''base/d/'' @ ensure_pdf x"
  "dst_path plain_ops f ''base'' \<lparr> rel_path = ''d'', folio = x, folio_ok = y, rownum = n \<rparr>
     = ''base/d/'' @ ensure_pdf y"
  by (simp_all add: src_path_def dst_path_def plain_ops_def)

lemma plain_ops_simps [simp]:
  "fs_exists plain_ops f p = (p \<in> set f)"
  "fs_resolve plain_ops f p = p"
  "fs_rename plain_ops f s d = (if s \<in> set f then Inr (d # filter (\<lambda>p. p \<noteq> s \<and> p \<noteq> d) f)
                                else Inl ''FileNotFoundError'')"
  by (simp_all add: plain_ops_def)

lemma load_two_rows:
  "load_rows (table_lib [''path'', ''folio'', ''folio_correcto'']
      [[(''path'', Some ''d''), (''folio'', Some ''a''), (''folio_correcto'', Some ''b'')],
       [(''path'', Some ''d''), (''folio'', Some ''b''), (''folio_correcto'', Some ''c'')]]) []
   = Inr ([\<lparr> rel_path = ''d'', folio = ''a'', folio_ok = ''b'', rownum = 2 \<rparr>,
           \<lparr> rel_path = ''d'', folio = ''b'', folio_ok = ''c'', rownum = 3 \<rparr>], [])"
proof -
  have res: "resolve_columns (Some [''path'', ''folio'', ''folio_correcto'']) =
      Inr [(''path'', ''path''), (''folio'', ''folio''), (''folio_correcto'', ''folio_correcto'')]"
    by (simp add: resolve_columns_def found_names_def Let_def build_field_map_def
        str_or_empty_def lower_def is_upper_def required_def dict_has_def)
  have st: "strip ''a'' = ''a''" "strip ''b'' = ''b''" "strip ''c'' = ''c''"
    by (simp_all add: strip_def lstrip_def rstrip_def is_space_def)
  show ?thesis
    by (simp add: load_rows_def table_lib_def res parse_row_def cell_def dict_get_def
        opt_or_empty_def st)
qed

lemma plan_two_first:
  "make_plan plain_ops [''base/d/a.pdf''] ''base''
     [\<lparr> rel_path = ''d'', folio = ''a'', folio_ok = ''b'', rownum = 2 \<rparr>,
      \<lparr> rel_path = ''d'', folio = ''b'', folio_ok = ''c'', rownum = 3 \<rparr>]
   = \<lparr> plan = [\<lparr> item_rownum = 2, src = ''base/d/a.pdf'', dst = ''base/d/b.pdf'', can_move = True \<rparr>,
               \<lparr> item_rownum = 3, src = ''base/d/b.pdf'', dst = ''base/d/c.pdf'', can_move = False \<rparr>],
       n_exists = 1, n_missing = 1, n_conflicts = 0,
       preview = [EvPreviewItem 2 ''base/d/a.pdf'' ''base/d/b.pdf'' [SrcFound],
                  EvPreviewItem 3 ''base/d/b.pdf'' ''base/d/c.pdf'' [SrcMissing]] \<rparr>"
  by (simp add: make_plan_def plan_step_def Let_def)

lemma plan_two_second:
  "make_plan plain_ops [''base/d/b.pdf''] ''base''
     [\<lparr> rel_path = ''d'', folio = ''a'', folio_ok = ''b'', rownum = 2 \<rparr>,
      \<lparr> rel_path = ''d'', folio = ''b'', folio_ok = ''c'', rownum = 3 \<rparr>]
   = \<lparr> plan = [\<lparr> item_rownum = 2, src = ''base/d/a.pdf'', dst = ''base/d/b.pdf'', can_move = False \<rparr>,
               \<lparr> item_rownum = 3, src = ''base/d/b.pdf'', dst = ''base/d/c.pdf'', can_move = True \<rparr>],
       n_exists = 1, n_missing = 1, n_conflicts = 0,
       preview = [EvPreviewItem 2 ''base/d/a.pdf'' ''base/d/b.pdf'' [SrcMissing],
                  EvPreviewItem 3 ''base/d/b.pdf'' ''base/d/c.pdf'' [SrcFound]] \<rparr>"
  by (simp add: make_plan_def plan_step_def Let_def)

lemma run_two_first:
  "main plain_ops (table_lib [''path'', ''folio'', ''folio_correcto'']
      [[(''path'', Some ''d''), (''folio'', Some ''a''), (''folio_correcto'', Some ''b'')],
       [(''path'', Some ''d''), (''folio'', Some ''b''), (''folio_correcto'', Some ''c'')]])
     ''base'' [] (Some ''1'') [''base/d/a.pdf'']
   = \<lparr> exit_status = 0, final_fs = [''base/d/b.pdf''],
       printed = [EvPreviewHeader,
                  EvPreviewItem 2 ''base/d/a.pdf'' ''base/d/b.pdf'' [SrcFound],
                  EvPreviewItem 3 ''base/d/b.pdf'' ''base/d/c.pdf'' [SrcMissing],
                  EvSummary 1 1 0, EvApplyHeader,
                  EvRenamed ''base/d/a.pdf'' ''base/d/b.pdf'',
                  EvOmittedCannotMove ''base/d/b.pdf'' ''base/d/c.pdf'',
                  EvResult 1 1] \<rparr>"
  by (simp add: main_def load_two_rows plan_two_first execute_def exec_item_def start_def)

lemma run_two_second:
  "main plain_ops (table_lib [''path'', ''folio'', ''folio_correcto'']
      [[(''path'', Some ''d''), (''folio'', Some ''a''), (''folio_correcto'', Some ''b'')],
       [(''path'', Some ''d''), (''folio'', Some ''b''), (''folio_correcto'', Some ''c'')]])
     ''base'' [] (Some ''1'') [''base/d/b.pdf'']
   = \<lparr> exit_status = 0, final_fs = [''base/d/c.pdf''],
       printed = [EvPreviewHeader,
                  EvPreviewItem 2 ''base/d/a.pdf'' ''base/d/b.pdf'' [SrcMissing],
                  EvPreviewItem 3 ''base/d/b.pdf'' ''base/d/c.pdf'' [SrcFound],
                  EvSummary 1 1 0, EvApplyHeader,
                  EvOmittedCannotMove ''base/d/a.pdf'' ''base/d/b.pdf'',
                  EvRenamed ''base/d/b.pdf'' ''base/d/c.pdf'',
                  EvResult 1 1] \<rparr>"
  by (simp add: main_def load_two_rows plan_two_second execute_def exec_item_def start_def)

lemma nocase_ops_simps [simp]:
  "fs_exists nocase_ops f p = (lower p \<in> set (map lower f))"
  "fs_resolve nocase_ops f p = lower p"
  "path_join nocase_ops p s = p @ ''/'' @ s"
  by (simp_all add: nocase_ops_def)

lemma lower_paths [simp]:
  "lower ''base/d'' = ''base/d''"
  "lower ''base/d/a.pdf'' = ''base/d/a.pdf''"
  "lower ''base/d/A.PDF'' = ''base/d/a.pdf''"
  "lower ''base/d/b.pdf'' = ''base/d/b.pdf''"
  "lower ''base/d/c.pdf'' = ''base/d/c.pdf''"
  by (simp_all add: lower_def is_upper_def)

lemma alias_rename:
  assumes "alias_fs ops" and "fs_rename ops f s d = Inr f'"
  shows "fs_resolve ops f' p = fs_resolve ops f p"
    and "fs_exists ops f' p \<longleftrightarrow>
           fs_resolve ops f p = fs_resolve ops f d \<or>
           (fs_resolve ops f p \<noteq> fs_resolve ops f s \<and> fs_exists ops f p)"
proof -
  from assms have r: "(\<forall>p. fs_resolve ops f' p = fs_resolve ops f p) \<and>
      (\<forall>p. fs_exists ops f' p \<longleftrightarrow>
             fs_resolve ops f p = fs_resolve ops f d \<or>
             (fs_resolve ops f p \<noteq> fs_resolve ops f s \<and> fs_exists ops f p))"
    unfolding alias_fs_def by blast
  from r show "fs_resolve ops f' p = fs_resolve ops f p"
    by blast
  from r show "fs_exists ops f' p \<longleftrightarrow>
           fs_resolve ops f p = fs_resolve ops f d \<or>
           (fs_resolve ops f p \<noteq> fs_resolve ops f s \<and> fs_exists ops f p)"
    by blast
qed

lemma alias_exists:
  assumes "alias_fs ops" and "fs_resolve ops f p = fs_resolve ops f q"
  shows "fs_exists ops f p = fs_exists ops f q"
  using assms unfolding alias_fs_def by blast

lemma exec_item_resolve:
  assumes "alias_fs ops"
  shows "fs_resolve ops (fs (exec_item ops st it)) p = fs_resolve ops (fs st) p"
proof (cases "fs_rename ops (fs st) (src it) (dst it)")
  case (Inl e)
  then show ?thesis
    by (simp add: exec_item_def)
next
  case (Inr f')
  with assms have "fs_resolve ops f' p = fs_resolve ops (fs st) p"
    by (rule alias_rename(1))
  with Inr show ?thesis
    by (simp add: exec_item_def)
qed

lemma execute_resolve:
  assumes "alias_fs ops"
  shows "fs_resolve ops (fs (execute ops st items)) p = fs_resolve ops (fs st) p"
proof (induction items arbitrary: st)
  case Nil
  then show ?case by (simp add: execute_Nil)
next
  case (Cons it items)
  have "fs_resolve ops (fs (execute ops (exec_item ops st it) items)) p
      = fs_resolve ops (fs (exec_item ops st it)) p"
    by (rule Cons.IH)
  also have "\<dots> = fs_resolve ops (fs st) p"
    using assms by (rule exec_item_resolve)
  finally show ?case
    by (simp add: execute_Cons)
qed

lemma alias_paths:
  assumes "\<And>p. fs_resolve ops f' p = fs_resolve ops f p"
  shows "src_path ops f' base_dir r = src_path ops f base_dir r"
    and "dst_path ops f' base_dir r = dst_path ops f base_dir r"
  using assms by (simp_all add: src_path_def dst_path_def)

lemma exec_item_sources_gone:
  assumes al: "alias_fs ops"
      and res0: "\<And>p. fs_resolve ops (fs st) p = fs_resolve ops f0 p"
      and ok: "can_move it \<longrightarrow> fs_exists ops f0 (src it) \<and>
                 (\<not> fs_exists ops f0 (dst it) \<or>
                  fs_resolve ops f0 (dst it) = fs_resolve ops f0 (src it))"
      and inv: "\<forall>s d. EvRenamed s d \<in> set (log st) \<longrightarrow>
                 fs_exists ops f0 s \<and> \<not> fs_exists ops (fs st) s"
  shows "\<forall>s d. EvRenamed s d \<in> set (log (exec_item ops st it)) \<longrightarrow>
           fs_exists ops f0 s \<and> \<not> fs_exists ops (fs (exec_item ops st it)) s"
proof (cases "can_move it \<and> fs_resolve ops (fs st) (src it) \<noteq> fs_resolve ops (fs st) (dst it) \<and>
    \<not> fs_exists ops (fs st) (dst it) \<and>
    (\<exists>f'. fs_rename ops (fs st) (src it) (dst it) = Inr f')")
  case True
  then obtain f' where ren: "fs_rename ops (fs st) (src it) (dst it) = Inr f'"
    by blast
  have ex: "\<And>p. fs_exists ops f' p \<longleftrightarrow>
      fs_resolve ops f0 p = fs_resolve ops f0 (dst it) \<or>
      (fs_resolve ops f0 p \<noteq> fs_resolve ops f0 (src it) \<and> fs_exists ops (fs st) p)"
    using alias_rename(2) [OF al ren] by (simp add: res0)
  from True ren have step: "exec_item ops st it =
      st\<lparr> fs := f', moved := moved st + 1, log := log st @ [EvRenamed (src it) (dst it)] \<rparr>"
    by (simp add: exec_item_def)
  from True have ne: "fs_resolve ops f0 (src it) \<noteq> fs_resolve ops f0 (dst it)"
    by (simp add: res0)
  with True ok have src0: "fs_exists ops f0 (src it)" and dst0: "\<not> fs_exists ops f0 (dst it)"
    by auto
  show ?thesis
  proof (intro allI impI)
    fix s d
    assume "EvRenamed s d \<in> set (log (exec_item ops st it))"
    then have "(s = src it \<and> d = dst it) \<or> EvRenamed s d \<in> set (log st)"
      by (auto simp add: step)
    then show "fs_exists ops f0 s \<and> \<not> fs_exists ops (fs (exec_item ops st it)) s"
    proof
      assume "s = src it \<and> d = dst it"
      with ne src0 show ?thesis
        by (simp add: step ex)
    next
      assume "EvRenamed s d \<in> set (log st)"
      with inv have a: "fs_exists ops f0 s" and b: "\<not> fs_exists ops (fs st) s"
        by auto
      have "fs_resolve ops f0 s \<noteq> fs_resolve ops f0 (dst it)"
      proof
        assume "fs_resolve ops f0 s = fs_resolve ops f0 (dst it)"
        with al have "fs_exists ops f0 s = fs_exists ops f0 (dst it)"
          by (rule alias_exists)
        with a dst0 show False by simp
      qed
      with a b show ?thesis
        by (simp add: step ex)
    qed
  qed
next
  case False
  from False have same: "fs (exec_item ops st it) = fs st"
    by (auto simp add: exec_item_def split: sum.splits)
  from False have "\<And>s d. EvRenamed s d \<in> set (log (exec_item ops st it)) \<Longrightarrow>
      EvRenamed s d \<in> set (log st)"
    by (auto simp add: exec_item_def split: sum.splits if_splits)
  with inv same show ?thesis
    by auto
qed

lemma execute_sources_gone:
  assumes al: "alias_fs ops"
      and ok: "\<forall>it \<in> set items. can_move it \<longrightarrow> fs_exists ops f0 (src it) \<and>
                 (\<not> fs_exists ops f0 (dst it) \<or>
                  fs_resolve ops f0 (dst it) = fs_resolve ops f0 (src it))"
      and res0: "\<And>p. fs_resolve ops (fs st) p = fs_resolve ops f0 p"
      and inv: "\<forall>s d. EvRenamed s d \<in> set (log st) \<longrightarrow>
                 fs_exists ops f0 s \<and> \<not> fs_exists ops (fs st) s"
  shows "\<forall>s d. EvRenamed s d \<in> set (log (execute ops st items)) \<longrightarrow>
           fs_exists ops f0 s \<and> \<not> fs_exists ops (fs (execute ops st items)) s"
  using ok res0 inv
proof (induction items arbitrary: st)
  case Nil
  then show ?case by (simp add: execute_Nil)
next
  case (Cons it items)
  from Cons.prems(1) have okit: "can_move it \<longrightarrow> fs_exists ops f0 (src it) \<and>
      (\<not> fs_exists ops f0 (dst it) \<or> fs_resolve ops f0 (dst it) = fs_resolve ops f0 (src it))"
    by simp
  have inv': "\<forall>s d. EvRenamed s d \<in> set (log (exec_item ops st it)) \<longrightarrow>
      fs_exists ops f0 s \<and> \<not> fs_exists ops (fs (exec_item ops st it)) s"
    using al Cons.prems(2) okit Cons.prems(3) by (rule exec_item_sources_gone)
  have res': "\<And>p. fs_resolve ops (fs (exec_item ops st it)) p = fs_resolve ops f0 p"
    using exec_item_resolve [OF al, of st it] Cons.prems(2) by simp
  from Cons.prems(1) have "\<forall>it \<in> set items. can_move it \<longrightarrow> fs_exists ops f0 (src it) \<and>
      (\<not> fs_exists ops f0 (dst it) \<or> fs_resolve ops f0 (dst it) = fs_resolve ops f0 (src it))"
    by simp
  then show ?case
    unfolding execute_Cons using res' inv' by (rule Cons.IH)
qed

lemma alias_fs_nocase_ops: "alias_fs nocase_ops"
  unfolding alias_fs_def nocase_ops_def by (auto split: if_splits)

lemma nocase_rename:
  "fs_rename nocase_ops f s d =
     (if lower s \<in> set (map lower f)
      then Inr (d # filter (\<lambda>p. lower p \<noteq> lower s \<and> lower p \<noteq> lower d) f)
      else Inl ''FileNotFoundError'')"
  by (simp add: nocase_ops_def)

lemma nocase_paths:
  "src_path nocase_ops f ''base'' \<lparr> rel_path = ''d'', folio = x, folio_ok = y, rownum = n \<rparr>
     = ''base/d/'' @ ensure_pdf x"
  "dst_path nocase_ops f ''base'' \<lparr> rel_path = ''d'', folio = x, folio_ok = y, rownum = n \<rparr>
     = ''base/d/'' @ ensure_pdf y"
  by (simp_all add: src_path_def dst_path_def)

lemma ensure_pdf_upper: "ensure_pdf ''A'' = ''A.pdf''"
  by (simp add: ensure_pdf_def str_or_empty_def Let_def strip_def lstrip_def rstrip_def
      is_space_def endswith_def lower_def is_upper_def)

lemma lower_upper_path: "lower ''base/d/A.pdf'' = ''base/d/a.pdf''"
  by (simp add: lower_def is_upper_def)

lemma load_two_rows_upper:
  "load_rows (table_lib [''path'', ''folio'', ''folio_correcto'']
      [[(''path'', Some ''d''), (''folio'', Some ''A''), (''folio_correcto'', Some ''b'')],
       [(''path'', Some ''d''), (''folio'', Some ''b''), (''folio_correcto'', Some ''c'')]]) []
   = Inr ([\<lparr> rel_path = ''d'', folio = ''A'', folio_ok = ''b'', rownum = 2 \<rparr>,
           \<lparr> rel_path = ''d'', folio = ''b'', folio_ok = ''c'', rownum = 3 \<rparr>], [])"
proof -
  have res: "resolve_columns (Some [''path'', ''folio'', ''folio_correcto'']) =
      Inr [(''path'', ''path''), (''folio'', ''folio''), (''folio_correcto'', ''folio_correcto'')]"
    by (simp add: resolve_columns_def found_names_def Let_def build_field_map_def
        str_or_empty_def lower_def is_upper_def required_def dict_has_def)
  have st: "strip ''A'' = ''A''" "strip ''b'' = ''b''" "strip ''c'' = ''c''"
    by (simp_all add: strip_def lstrip_def rstrip_def is_space_def)
  show ?thesis
    by (simp add: load_rows_def table_lib_def res parse_row_def cell_def dict_get_def
        opt_or_empty_def st)
qed

lemma nocase_run_first:
  "main nocase_ops (table_lib [''path'', ''folio'', ''folio_correcto'']
      [[(''path'', Some ''d''), (''folio'', Some ''A''), (''folio_correcto'', Some ''b'')],
       [(''path'', Some ''d''), (''folio'', Some ''b''), (''folio_correcto'', Some ''c'')]])
     ''base'' [] (Some ''1'') [''base/d/a.pdf'']
   = \<lparr> exit_status = 0, final_fs = [''base/d/b.pdf''],
       printed = [EvPreviewHeader,
                  EvPreviewItem 2 ''base/d/A.pdf'' ''base/d/b.pdf'' [SrcFound],
                  EvPreviewItem 3 ''base/d/b.pdf'' ''base/d/c.pdf'' [SrcMissing],
                  EvSummary 1 1 0, EvApplyHeader,
                  EvRenamed ''base/d/A.pdf'' ''base/d/b.pdf'',
                  EvOmittedCannotMove ''base/d/b.pdf'' ''base/d/c.pdf'',
                  EvResult 1 1] \<rparr>"
  by (simp add: main_def load_two_rows_upper make_plan_def plan_step_def Let_def
      execute_def exec_item_def start_def nocase_paths nocase_rename ensure_pdf_upper
      lower_upper_path)

section \<open>The planner\<close>

text \<open>
  C2. For every correction record, the plan has an entry at the record's position, with
  the record's source and destination paths, and the entry's \<open>can_move\<close> flag is true
  if and only if the source path exists and either the destination path does not exist
  or the destination path resolves to the same path as the source path (the comparison
  is between the resolved paths, not between the paths as written).
\<close>

theorem can_move_iff:
  assumes "i < length rows"
  shows "length (plan (make_plan ops f base_dir rows)) = length rows \<and>
         src (plan (make_plan ops f base_dir rows) ! i) = src_path ops f base_dir (rows ! i) \<and>
         dst (plan (make_plan ops f base_dir rows) ! i) = dst_path ops f base_dir (rows ! i) \<and>
         (can_move (plan (make_plan ops f base_dir rows) ! i) \<longleftrightarrow>
            fs_exists ops f (src_path ops f base_dir (rows ! i)) \<and>
            (\<not> fs_exists ops f (dst_path ops f base_dir (rows ! i)) \<or>
             fs_resolve ops f (dst_path ops f base_dir (rows ! i))
               = fs_resolve ops f (src_path ops f base_dir (rows ! i))))"
  using assms by (simp add: make_plan_plan entry_of_def)

theorem can_move_iff_witness:
  "(0::nat) < length [\<lparr> rel_path = ''d'', folio = ''a'', folio_ok = ''A.PDF'', rownum = 2 \<rparr>,
                     \<lparr> rel_path = ''d'', folio = ''b'', folio_ok = ''c'', rownum = 3 \<rparr>] \<and>
   src (plan (make_plan nocase_ops [''base/d/a.pdf'', ''base/d/b.pdf'', ''base/d/c.pdf''] ''base''
          [\<lparr> rel_path = ''d'', folio = ''a'', folio_ok = ''A.PDF'', rownum = 2 \<rparr>,
           \<lparr> rel_path = ''d'', folio = ''b'', folio_ok = ''c'', rownum = 3 \<rparr>]) ! 0)
     = ''base/d/a.pdf'' \<and>
   dst (plan (make_plan nocase_ops [''base/d/a.pdf'', ''base/d/b.pdf'', ''base/d/c.pdf''] ''base''
          [\<lparr> rel_path = ''d'', folio = ''a'', folio_ok = ''A.PDF'', rownum = 2 \<rparr>,
           \<lparr> rel_path = ''d'', folio = ''b'', folio_ok = ''c'', rownum = 3 \<rparr>]) ! 0)
     = ''base/d/A.PDF'' \<and>
   can_move (plan (make_plan nocase_ops [''base/d/a.pdf'', ''base/d/b.pdf'', ''base/d/c.pdf''] ''base''
          [\<lparr> rel_path = ''d'', folio = ''a'', folio_ok = ''A.PDF'', rownum = 2 \<rparr>,
           \<lparr> rel_path = ''d'', folio = ''b'', folio_ok = ''c'', rownum = 3 \<rparr>]) ! 0) \<and>
   \<not> can_move (plan (make_plan nocase_ops [''base/d/a.pdf'', ''base/d/b.pdf'', ''base/d/c.pdf''] ''base''
          [\<lparr> rel_path = ''d'', folio = ''a'', folio_ok = ''A.PDF'', rownum = 2 \<rparr>,
           \<lparr> rel_path = ''d'', folio = ''b'', folio_ok = ''c'', rownum = 3 \<rparr>]) ! 1)"
proof -
  let ?rows = "[\<lparr> rel_path = ''d'', folio = ''a'', folio_ok = ''A.PDF'', rownum = 2 \<rparr>,
                \<lparr> rel_path = ''d'', folio = ''b'', folio_ok = ''c'', rownum = 3 \<rparr>]"
  let ?f = "[''base/d/a.pdf'', ''base/d/b.pdf'', ''base/d/c.pdf'']"
  have l0: "(0::nat) < length ?rows" and l1: "(1::nat) < length ?rows"
    by simp_all
  have p: "src_path nocase_ops ?f ''base'' (?rows ! 0) = ''base/d/a.pdf''"
    "dst_path nocase_ops ?f ''base'' (?rows ! 0) = ''base/d/A.PDF''"
    "src_path nocase_ops ?f ''base'' (?rows ! 1) = ''base/d/b.pdf''"
    "dst_path nocase_ops ?f ''base'' (?rows ! 1) = ''base/d/c.pdf''"
    by (simp_all add: src_path_def dst_path_def)
  from can_move_iff [OF l0, of nocase_ops ?f "''base''"]
    can_move_iff [OF l1, of nocase_ops ?f "''base''"]
  show ?thesis
    unfolding p by simp
qed

text \<open>
  C9. For every list of records, the plan has exactly one entry per record, in the order
  of the records (same row numbers, sources and destinations); the number of sources
  found plus the number of sources missing is the number of records, and the number of
  conflicts is at most the number of sources found.
\<close>

theorem planning_invariants:
  "map item_rownum (plan (make_plan ops f base_dir rows)) = map rownum rows \<and>
   map src (plan (make_plan ops f base_dir rows)) = map (src_path ops f base_dir) rows \<and>
   map dst (plan (make_plan ops f base_dir rows)) = map (dst_path ops f base_dir) rows \<and>
   length (plan (make_plan ops f base_dir rows)) = length rows \<and>
   n_exists (make_plan ops f base_dir rows) + n_missing (make_plan ops f base_dir rows)
     = length rows \<and>
   n_conflicts (make_plan ops f base_dir rows) \<le> n_exists (make_plan ops f base_dir rows)"
proof -
  have a: "length (filter (source_found ops f base_dir) rows)
      + length (filter (\<lambda>r. \<not> source_found ops f base_dir r) rows) = length rows"
    by (rule sum_length_filter_compl)
  have "filter (conflicting ops f base_dir) rows
      = filter (conflicting ops f base_dir) (filter (source_found ops f base_dir) rows)"
    by (auto simp add: conflicting_def source_found_def intro: filter_cong)
  then have b: "length (filter (conflicting ops f base_dir) rows)
      \<le> length (filter (source_found ops f base_dir) rows)"
    by (metis length_filter_le)
  from a b show ?thesis
    by (simp add: make_plan_plan make_plan_counts entry_of_def comp_def)
qed

theorem planning_invariants_witness:
  "n_exists (make_plan plain_ops [''base/d/a.pdf'', ''base/d/b.pdf''] ''base''
      [\<lparr> rel_path = ''d'', folio = ''a'', folio_ok = ''b'', rownum = 2 \<rparr>,
       \<lparr> rel_path = ''d'', folio = ''b'', folio_ok = ''c'', rownum = 3 \<rparr>,
       \<lparr> rel_path = ''d'', folio = ''c'', folio_ok = ''a'', rownum = 4 \<rparr>]) = 2 \<and>
   n_missing (make_plan plain_ops [''base/d/a.pdf'', ''base/d/b.pdf''] ''base''
      [\<lparr> rel_path = ''d'', folio = ''a'', folio_ok = ''b'', rownum = 2 \<rparr>,
       \<lparr> rel_path = ''d'', folio = ''b'', folio_ok = ''c'', rownum = 3 \<rparr>,
       \<lparr> rel_path = ''d'', folio = ''c'', folio_ok = ''a'', rownum = 4 \<rparr>]) = 1 \<and>
   n_conflicts (make_plan plain_ops [''base/d/a.pdf'', ''base/d/b.pdf''] ''base''
      [\<lparr> rel_path = ''d'', folio = ''a'', folio_ok = ''b'', rownum = 2 \<rparr>,
       \<lparr> rel_path = ''d'', folio = ''b'', folio_ok = ''c'', rownum = 3 \<rparr>,
       \<lparr> rel_path = ''d'', folio = ''c'', folio_ok = ''a'', rownum = 4 \<rparr>]) = 1 \<and>
   map item_rownum (plan (make_plan plain_ops [''base/d/a.pdf'', ''base/d/b.pdf''] ''base''
      [\<lparr> rel_path = ''d'', folio = ''a'', folio_ok = ''b'', rownum = 2 \<rparr>,
       \<lparr> rel_path = ''d'', folio = ''b'', folio_ok = ''c'', rownum = 3 \<rparr>,
       \<lparr> rel_path = ''d'', folio = ''c'', folio_ok = ''a'', rownum = 4 \<rparr>])) = [2, 3, 4]"
proof -
  let ?rows = "[\<lparr> rel_path = ''d'', folio = ''a'', folio_ok = ''b'', rownum = 2 \<rparr>,
       \<lparr> rel_path = ''d'', folio = ''b'', folio_ok = ''c'', rownum = 3 \<rparr>,
       \<lparr> rel_path = ''d'', folio = ''c'', folio_ok = ''a'', rownum = 4 \<rparr>]"
  let ?f = "[''base/d/a.pdf'', ''base/d/b.pdf'']"
  have e: "n_exists (make_plan plain_ops ?f ''base'' ?rows) = 2"
    by (simp add: make_plan_def plan_step_def Let_def)
  have c: "n_conflicts (make_plan plain_ops ?f ''base'' ?rows) = 1"
    by (simp add: make_plan_def plan_step_def Let_def)
  from planning_invariants [of plain_ops ?f "''base''" ?rows] e c show ?thesis
    by simp
qed

section \<open>The executor\<close>

text \<open>
  C1. An entry whose destination exists and resolves to another path than its source is
  never renamed: when that holds in the state in which the entry is executed, the step
  leaves the filesystem and the moved count as they are and adds one to the skipped
  count, whatever the entry's flag is (the executor checks the destination again just
  before renaming); when it holds in the state the plan was made in, the entry is marked
  not executable and the step, in any state, does the same.
\<close>

theorem conflict_never_executed:
  "(fs_exists ops (fs st) (dst it) \<and>
    fs_resolve ops (fs st) (src it) \<noteq> fs_resolve ops (fs st) (dst it) \<longrightarrow>
      fs (exec_item ops st it) = fs st \<and>
      skipped (exec_item ops st it) = skipped st + 1 \<and>
      moved (exec_item ops st it) = moved st \<and>
      log (exec_item ops st it) =
        log st @ [if can_move it then EvOmittedDstExists (src it) (dst it)
                  else EvOmittedCannotMove (src it) (dst it)]) \<and>
   (it \<in> set (plan (make_plan ops f base_dir rows)) \<and> fs_exists ops f (dst it) \<and>
    fs_resolve ops f (src it) \<noteq> fs_resolve ops f (dst it) \<longrightarrow>
      \<not> can_move it \<and>
      fs (exec_item ops st it) = fs st \<and>
      skipped (exec_item ops st it) = skipped st + 1 \<and>
      moved (exec_item ops st it) = moved st \<and>
      log (exec_item ops st it) = log st @ [EvOmittedCannotMove (src it) (dst it)])"
proof -
  have a: "fs_exists ops (fs st) (dst it) \<and>
    fs_resolve ops (fs st) (src it) \<noteq> fs_resolve ops (fs st) (dst it) \<longrightarrow>
      fs (exec_item ops st it) = fs st \<and>
      skipped (exec_item ops st it) = skipped st + 1 \<and>
      moved (exec_item ops st it) = moved st \<and>
      log (exec_item ops st it) =
        log st @ [if can_move it then EvOmittedDstExists (src it) (dst it)
                  else EvOmittedCannotMove (src it) (dst it)]"
    by (simp add: exec_item_conflict)
  have b: "it \<in> set (plan (make_plan ops f base_dir rows)) \<and> fs_exists ops f (dst it) \<and>
    fs_resolve ops f (src it) \<noteq> fs_resolve ops f (dst it) \<longrightarrow>
      \<not> can_move it \<and>
      fs (exec_item ops st it) = fs st \<and>
      skipped (exec_item ops st it) = skipped st + 1 \<and>
      moved (exec_item ops st it) = moved st \<and>
      log (exec_item ops st it) = log st @ [EvOmittedCannotMove (src it) (dst it)]"
  proof
    assume h: "it \<in> set (plan (make_plan ops f base_dir rows)) \<and> fs_exists ops f (dst it) \<and>
      fs_resolve ops f (src it) \<noteq> fs_resolve ops f (dst it)"
    then have "\<not> can_move it"
      using planned_can_move [of it ops f base_dir rows] by auto
    then show "\<not> can_move it \<and>
      fs (exec_item ops st it) = fs st \<and>
      skipped (exec_item ops st it) = skipped st + 1 \<and>
      moved (exec_item ops st it) = moved st \<and>
      log (exec_item ops st it) = log st @ [EvOmittedCannotMove (src it) (dst it)]"
      by (simp add: exec_item_cannot_move)
  qed
  from a b show ?thesis by blast
qed

theorem conflict_never_executed_witness:
  "fs_exists plain_ops (fs (start [''base/d/a.pdf'', ''base/d/b.pdf''] :: (string list, string) exec_state))
     ''base/d/b.pdf'' \<and>
   fs_resolve plain_ops [''base/d/a.pdf'', ''base/d/b.pdf''] ''base/d/a.pdf''
     \<noteq> fs_resolve plain_ops [''base/d/a.pdf'', ''base/d/b.pdf''] ''base/d/b.pdf'' \<and>
   \<lparr> item_rownum = 2, src = ''base/d/a.pdf'', dst = ''base/d/b.pdf'', can_move = False \<rparr>
     \<in> set (plan (make_plan plain_ops [''base/d/a.pdf'', ''base/d/b.pdf''] ''base''
                [\<lparr> rel_path = ''d'', folio = ''a'', folio_ok = ''b'', rownum = 2 \<rparr>])) \<and>
   exec_item plain_ops (start [''base/d/a.pdf'', ''base/d/b.pdf''])
     \<lparr> item_rownum = 2, src = ''base/d/a.pdf'', dst = ''base/d/b.pdf'', can_move = False \<rparr>
   = \<lparr> fs = [''base/d/a.pdf'', ''base/d/b.pdf''], moved = 0, skipped = 1,
       log = [EvOmittedCannotMove ''base/d/a.pdf'' ''base/d/b.pdf''] \<rparr> \<and>
   exec_item plain_ops (start [''base/d/a.pdf'', ''base/d/b.pdf''])
     \<lparr> item_rownum = 2, src = ''base/d/a.pdf'', dst = ''base/d/b.pdf'', can_move = True \<rparr>
   = \<lparr> fs = [''base/d/a.pdf'', ''base/d/b.pdf''], moved = 0, skipped = 1,
       log = [EvOmittedDstExists ''base/d/a.pdf'' ''base/d/b.pdf''] \<rparr>"
proof -
  let ?f = "[''base/d/a.pdf'', ''base/d/b.pdf'']"
  let ?st = "start ?f :: (string list, string) exec_state"
  let ?it = "\<lparr> item_rownum = 2, src = ''base/d/a.pdf'', dst = ''base/d/b.pdf'', can_move = False \<rparr>"
  let ?it' = "\<lparr> item_rownum = 2, src = ''base/d/a.pdf'', dst = ''base/d/b.pdf'', can_move = True \<rparr>"
  let ?rows = "[\<lparr> rel_path = ''d'', folio = ''a'', folio_ok = ''b'', rownum = 2 \<rparr>]"
  have h1: "fs_exists plain_ops (fs ?st) ''base/d/b.pdf''"
    by (simp add: start_def)
  have h2: "fs_resolve plain_ops ?f ''base/d/a.pdf'' \<noteq> fs_resolve plain_ops ?f ''base/d/b.pdf''"
    by simp
  have h3: "?it \<in> set (plan (make_plan plain_ops ?f ''base'' ?rows))"
    by (simp add: make_plan_def plan_step_def Let_def)
  have eq: "\<And>st st' :: (string list, string) exec_state.
      fs st = fs st' \<Longrightarrow> moved st = moved st' \<Longrightarrow> skipped st = skipped st' \<Longrightarrow>
      log st = log st' \<Longrightarrow> st = st'"
    by simp
  from conflict_never_executed [of plain_ops ?st ?it ?f "''base''" ?rows] h1 h2 h3
  have a: "exec_item plain_ops ?st ?it =
      \<lparr> fs = ?f, moved = 0, skipped = 1, log = [EvOmittedCannotMove ''base/d/a.pdf'' ''base/d/b.pdf''] \<rparr>"
    by (intro eq) (simp_all add: start_def)
  from conflict_never_executed [of plain_ops ?st ?it' ?f "''base''" ?rows] h1 h2
  have b: "exec_item plain_ops ?st ?it' =
      \<lparr> fs = ?f, moved = 0, skipped = 1, log = [EvOmittedDstExists ''base/d/a.pdf'' ''base/d/b.pdf''] \<rparr>"
    by (intro eq) (simp_all add: start_def)
  from h1 h2 h3 a b show ?thesis
    by blast
qed

text \<open>
  C10. An executable entry whose source and destination resolve to the same path, at the
  moment it is executed, is reported as already correct and changes neither the moved
  count nor the skipped count nor the filesystem; the run that contains it ends with
  moved plus skipped strictly below the number of plan entries.
\<close>

theorem already_ok_not_counted:
  assumes "can_move it"
      and "fs_resolve ops (fs (execute ops (start f) pre)) (src it)
             = fs_resolve ops (fs (execute ops (start f) pre)) (dst it)"
  shows "moved (exec_item ops (execute ops (start f) pre) it) = moved (execute ops (start f) pre) \<and>
         skipped (exec_item ops (execute ops (start f) pre) it)
           = skipped (execute ops (start f) pre) \<and>
         fs (exec_item ops (execute ops (start f) pre) it) = fs (execute ops (start f) pre) \<and>
         log (exec_item ops (execute ops (start f) pre) it)
           = log (execute ops (start f) pre) @ [EvAlreadyOk (src it)] \<and>
         moved (execute ops (start f) (pre @ it # post))
           + skipped (execute ops (start f) (pre @ it # post)) < length (pre @ it # post)"
proof -
  let ?st = "execute ops (start f) pre"
  have step: "exec_item ops ?st it = ?st\<lparr> log := log ?st @ [EvAlreadyOk (src it)] \<rparr>"
    using assms by (rule exec_item_already_ok)
  have pre: "moved ?st + skipped ?st \<le> length pre"
    using execute_bound [of ops "start f" pre] by (simp add: start_def)
  have "moved (execute ops (start f) (pre @ it # post))
        + skipped (execute ops (start f) (pre @ it # post))
      \<le> moved (exec_item ops ?st it) + skipped (exec_item ops ?st it) + length post"
    unfolding execute_append by (rule execute_bound)
  also have "\<dots> = moved ?st + skipped ?st + length post"
    by (simp add: step)
  also have "\<dots> < length (pre @ it # post)"
    using pre by simp
  finally have total: "moved (execute ops (start f) (pre @ it # post))
      + skipped (execute ops (start f) (pre @ it # post)) < length (pre @ it # post)" .
  from total show ?thesis
    by (simp add: step)
qed

theorem already_ok_not_counted_witness:
  "can_move \<lparr> item_rownum = 2, src = ''base/d/a.pdf'', dst = ''base/d/a.pdf'', can_move = True \<rparr> \<and>
   \<lparr> item_rownum = 2, src = ''base/d/a.pdf'', dst = ''base/d/a.pdf'', can_move = True \<rparr>
     \<in> set (plan (make_plan plain_ops [''base/d/a.pdf''] ''base''
                [\<lparr> rel_path = ''d'', folio = ''a'', folio_ok = ''a.pdf'', rownum = 2 \<rparr>])) \<and>
   moved (execute plain_ops (start [''base/d/a.pdf''])
     [\<lparr> item_rownum = 2, src = ''base/d/a.pdf'', dst = ''base/d/a.pdf'', can_move = True \<rparr>])
   + skipped (execute plain_ops (start [''base/d/a.pdf''])
     [\<lparr> item_rownum = 2, src = ''base/d/a.pdf'', dst = ''base/d/a.pdf'', can_move = True \<rparr>])
   < length [\<lparr> item_rownum = 2, src = ''base/d/a.pdf'', dst = ''base/d/a.pdf'', can_move = True \<rparr>] \<and>
   log (execute plain_ops (start [''base/d/a.pdf''])
     [\<lparr> item_rownum = 2, src = ''base/d/a.pdf'', dst = ''base/d/a.pdf'', can_move = True \<rparr>])
   = [EvAlreadyOk ''base/d/a.pdf'']"
proof -
  let ?f = "[''base/d/a.pdf'']"
  let ?it = "\<lparr> item_rownum = 2, src = ''base/d/a.pdf'', dst = ''base/d/a.pdf'', can_move = True \<rparr>"
  have h1: "can_move ?it"
    by simp
  have h2: "fs_resolve plain_ops (fs (execute plain_ops (start ?f) [])) (src ?it)
      = fs_resolve plain_ops (fs (execute plain_ops (start ?f) [])) (dst ?it)"
    by simp
  have h3: "?it \<in> set (plan (make_plan plain_ops ?f ''base''
      [\<lparr> rel_path = ''d'', folio = ''a'', folio_ok = ''a.pdf'', rownum = 2 \<rparr>]))"
    by (simp add: make_plan_def plan_step_def Let_def)
  from already_ok_not_counted [OF h1 h2, of "[]"] h1 h3 show ?thesis
    by (simp add: execute_def start_def)
qed

section \<open>Running the cycle twice\<close>

text \<open>
  C3, as the specification states it, fails on the script. With the rows
  \<^verbatim>\<open>d,a,b\<close> and \<^verbatim>\<open>d,b,c\<close> and the single file \<^verbatim>\<open>base/d/a.pdf\<close>, the first run
  renames \<^verbatim>\<open>a.pdf\<close> to \<^verbatim>\<open>b.pdf\<close> and omits the second row, whose source was
  missing when the plan was made. The second run renames \<^verbatim>\<open>b.pdf\<close> to \<^verbatim>\<open>c.pdf\<close>,
  one more move, and reports the first row, which the first run had moved, as omitted
  for a missing source, not as already correct.
\<close>

theorem second_run_counterexample:
  "printed (main plain_ops (table_lib [''path'', ''folio'', ''folio_correcto'']
      [[(''path'', Some ''d''), (''folio'', Some ''a''), (''folio_correcto'', Some ''b'')],
       [(''path'', Some ''d''), (''folio'', Some ''b''), (''folio_correcto'', Some ''c'')]])
     ''base'' [] (Some ''1'') [''base/d/a.pdf''])
   = [EvPreviewHeader,
      EvPreviewItem 2 ''base/d/a.pdf'' ''base/d/b.pdf'' [SrcFound],
      EvPreviewItem 3 ''base/d/b.pdf'' ''base/d/c.pdf'' [SrcMissing],
      EvSummary 1 1 0, EvApplyHeader,
      EvRenamed ''base/d/a.pdf'' ''base/d/b.pdf'',
      EvOmittedCannotMove ''base/d/b.pdf'' ''base/d/c.pdf'',
      EvResult 1 1] \<and>
   printed (main plain_ops (table_lib [''path'', ''folio'', ''folio_correcto'']
      [[(''path'', Some ''d''), (''folio'', Some ''a''), (''folio_correcto'', Some ''b'')],
       [(''path'', Some ''d''), (''folio'', Some ''b''), (''folio_correcto'', Some ''c'')]])
     ''base'' [] (Some ''1'')
     (final_fs (main plain_ops (table_lib [''path'', ''folio'', ''folio_correcto'']
        [[(''path'', Some ''d''), (''folio'', Some ''a''), (''folio_correcto'', Some ''b'')],
         [(''path'', Some ''d''), (''folio'', Some ''b''), (''folio_correcto'', Some ''c'')]])
       ''base'' [] (Some ''1'') [''base/d/a.pdf''])))
   = [EvPreviewHeader,
      EvPreviewItem 2 ''base/d/a.pdf'' ''base/d/b.pdf'' [SrcMissing],
      EvPreviewItem 3 ''base/d/b.pdf'' ''base/d/c.pdf'' [SrcFound],
      EvSummary 1 1 0, EvApplyHeader,
      EvOmittedCannotMove ''base/d/a.pdf'' ''base/d/b.pdf'',
      EvRenamed ''base/d/b.pdf'' ''base/d/c.pdf'',
      EvResult 1 1]"
  by (simp add: run_two_first run_two_second)

text \<open>
  C3, amended. On a filesystem whose renames behave (aliases allowed), every entry that
  the first run moved has no source any more when the first run ends; a second run on
  the same CSV and base directory classifies it as source missing, reports it as omitted,
  never as already correct, and does not move it again. (The second run may still move
  entries that the first run did not move.)
\<close>

theorem second_run_amended:
  assumes al: "alias_fs ops"
      and mv: "EvRenamed s d \<in> set (printed (main ops lib base_dir content go f))"
  shows "\<not> fs_exists ops (final_fs (main ops lib base_dir content go f)) s \<and>
         (\<exists>n. EvPreviewItem n s d [SrcMissing] \<in> set (printed
            (main ops lib base_dir content go (final_fs (main ops lib base_dir content go f))))) \<and>
         EvOmittedCannotMove s d \<in> set (printed
            (main ops lib base_dir content go (final_fs (main ops lib base_dir content go f)))) \<and>
         EvAlreadyOk s \<notin> set (printed
            (main ops lib base_dir content go (final_fs (main ops lib base_dir content go f)))) \<and>
         EvRenamed s d' \<notin> set (printed
            (main ops lib base_dir content go (final_fs (main ops lib base_dir content go f))))"
proof -
  obtain rows msgs a where ld: "load_rows lib content = Inr (rows, msgs)"
    and ne: "rows \<noteq> []" and go: "go = Some a" and a: "strip a = ''1''"
    using main_renamed_executed [OF mv] by blast
  let ?p1 = "make_plan ops f base_dir rows"
  let ?e1 = "execute ops (start f) (plan ?p1)"
  let ?f1 = "fs ?e1"
  let ?p2 = "make_plan ops ?f1 base_dir rows"
  let ?e2 = "execute ops (start ?f1) (plan ?p2)"
  have r1: "main ops lib base_dir content go f =
      \<lparr> exit_status = 0, final_fs = ?f1,
        printed = map EvRow msgs @ [EvPreviewHeader] @ preview ?p1
          @ [EvSummary (n_exists ?p1) (n_missing ?p1) (n_conflicts ?p1)]
          @ [EvApplyHeader] @ log ?e1 @ [EvResult (moved ?e1) (skipped ?e1)] \<rparr>"
    unfolding go using ld ne a by (rule main_executed)
  have r2: "main ops lib base_dir content go ?f1 =
      \<lparr> exit_status = 0, final_fs = fs ?e2,
        printed = map EvRow msgs @ [EvPreviewHeader] @ preview ?p2
          @ [EvSummary (n_exists ?p2) (n_missing ?p2) (n_conflicts ?p2)]
          @ [EvApplyHeader] @ log ?e2 @ [EvResult (moved ?e2) (skipped ?e2)] \<rparr>"
    unfolding go using ld ne a by (rule main_executed)
  have nopre1: "EvRenamed s d \<notin> set (preview ?p1)"
    by (auto simp add: make_plan_preview)
  with mv have in1: "EvRenamed s d \<in> set (log ?e1)"
    by (auto simp add: r1)
  have ok1: "\<forall>it \<in> set (plan ?p1). can_move it \<longrightarrow> fs_exists ops f (src it) \<and>
      (\<not> fs_exists ops f (dst it) \<or> fs_resolve ops f (dst it) = fs_resolve ops f (src it))"
    by (auto simp add: make_plan_plan entry_of_def)
  have res0: "\<And>p. fs_resolve ops (fs (start f :: ('a, 'b) exec_state)) p = fs_resolve ops f p"
    by (simp add: start_def)
  have inv0: "\<forall>s d. EvRenamed s d \<in> set (log (start f :: ('a, 'b) exec_state)) \<longrightarrow>
      fs_exists ops f s \<and> \<not> fs_exists ops (fs (start f :: ('a, 'b) exec_state)) s"
    by (simp add: start_def)
  have inv1: "\<forall>s d. EvRenamed s d \<in> set (log ?e1) \<longrightarrow>
      fs_exists ops f s \<and> \<not> fs_exists ops ?f1 s"
    using al ok1 res0 inv0 by (rule execute_sources_gone)
  with in1 have gone: "\<not> fs_exists ops ?f1 s"
    by blast
  \<comment> \<open>paths resolve after the first run as they did before it\<close>
  have res1: "\<And>p. fs_resolve ops ?f1 p = fs_resolve ops f p"
    using execute_resolve [OF al, of "start f" "plan ?p1"] by (simp add: start_def)
  \<comment> \<open>the entry of the first plan that was renamed, and its row\<close>
  from in1 have "\<exists>it \<in> set (plan ?p1). src it = s \<and> dst it = d \<and> can_move it"
    using execute_renamed_origin [of s d ops "start f" "plan ?p1"] by (simp add: start_def)
  then obtain r where r: "r \<in> set rows" and rs: "src_path ops f base_dir r = s"
    and rd: "dst_path ops f base_dir r = d"
    by (auto simp add: make_plan_plan entry_of_def)
  have s2: "src_path ops ?f1 base_dir r = s" and d2: "dst_path ops ?f1 base_dir r = d"
    using alias_paths [of ops ?f1 f base_dir r, OF res1] rs rd by simp_all
  \<comment> \<open>the second plan\<close>
  have cm2: "\<And>it. it \<in> set (plan ?p2) \<Longrightarrow> src it = s \<Longrightarrow> \<not> can_move it"
    using gone by (auto simp add: make_plan_plan entry_of_def)
  have it2: "entry_of ops ?f1 base_dir r \<in> set (plan ?p2)"
    using r by (simp add: make_plan_plan)
  have e2s: "src (entry_of ops ?f1 base_dir r) = s" and e2d: "dst (entry_of ops ?f1 base_dir r) = d"
    using s2 d2 by (simp_all add: entry_of_def)
  have "\<not> can_move (entry_of ops ?f1 base_dir r)"
    using it2 e2s by (rule cm2)
  with it2 have "EvOmittedCannotMove (src (entry_of ops ?f1 base_dir r))
      (dst (entry_of ops ?f1 base_dir r)) \<in> set (log ?e2)"
    by (rule execute_omitted)
  then have om: "EvOmittedCannotMove s d \<in> set (log ?e2)"
    by (simp add: e2s e2d)
  have "\<not> source_found ops ?f1 base_dir r"
    using gone s2 by (simp add: source_found_def)
  with r s2 d2 have pv: "EvPreviewItem (rownum r) s d [SrcMissing] \<in> set (preview ?p2)"
    by (force simp add: make_plan_preview)
  have noren: "EvRenamed s d' \<notin> set (log ?e2)"
  proof
    assume "EvRenamed s d' \<in> set (log ?e2)"
    then have "\<exists>it \<in> set (plan ?p2). src it = s \<and> dst it = d' \<and> can_move it"
      using execute_renamed_origin [of s d' ops "start ?f1" "plan ?p2"] by (simp add: start_def)
    with cm2 show False by blast
  qed
  have nook: "EvAlreadyOk s \<notin> set (log ?e2)"
  proof
    assume "EvAlreadyOk s \<in> set (log ?e2)"
    then have "\<exists>it \<in> set (plan ?p2). src it = s \<and> can_move it"
      using execute_already_ok_origin [of s ops "start ?f1" "plan ?p2"] by (simp add: start_def)
    with cm2 show False by blast
  qed
  have nopre2: "EvRenamed s d' \<notin> set (preview ?p2)" "EvAlreadyOk s \<notin> set (preview ?p2)"
    by (auto simp add: make_plan_preview)
  have f1: "final_fs (main ops lib base_dir content go f) = ?f1"
    by (simp add: r1)
  have pr2: "set (printed (main ops lib base_dir content go ?f1)) =
      EvRow ` set msgs \<union> set (preview ?p2) \<union> set (log ?e2) \<union>
      {EvPreviewHeader, EvSummary (n_exists ?p2) (n_missing ?p2) (n_conflicts ?p2),
       EvApplyHeader, EvResult (moved ?e2) (skipped ?e2)}"
    unfolding r2 by auto
  have c1: "\<exists>n. EvPreviewItem n s d [SrcMissing] \<in> set (printed (main ops lib base_dir content go ?f1))"
    unfolding pr2 using pv by blast
  have c2: "EvOmittedCannotMove s d \<in> set (printed (main ops lib base_dir content go ?f1))"
    unfolding pr2 using om by blast
  have c3: "EvAlreadyOk s \<notin> set (printed (main ops lib base_dir content go ?f1))"
    unfolding pr2 using nook nopre2(2) by auto
  have c4: "EvRenamed s d' \<notin> set (printed (main ops lib base_dir content go ?f1))"
    unfolding pr2 using noren nopre2(1) by auto
  from gone c1 c2 c3 c4 show ?thesis
    unfolding f1 by blast
qed

theorem second_run_amended_witness:
  "alias_fs nocase_ops \<and>
   EvRenamed ''base/d/A.pdf'' ''base/d/b.pdf'' \<in> set (printed
     (main nocase_ops (table_lib [''path'', ''folio'', ''folio_correcto'']
        [[(''path'', Some ''d''), (''folio'', Some ''A''), (''folio_correcto'', Some ''b'')],
         [(''path'', Some ''d''), (''folio'', Some ''b''), (''folio_correcto'', Some ''c'')]])
       ''base'' [] (Some ''1'') [''base/d/a.pdf''])) \<and>
   \<not> fs_exists nocase_ops [''base/d/b.pdf''] ''base/d/A.pdf'' \<and>
   EvOmittedCannotMove ''base/d/A.pdf'' ''base/d/b.pdf'' \<in> set (printed
     (main nocase_ops (table_lib [''path'', ''folio'', ''folio_correcto'']
        [[(''path'', Some ''d''), (''folio'', Some ''A''), (''folio_correcto'', Some ''b'')],
         [(''path'', Some ''d''), (''folio'', Some ''b''), (''folio_correcto'', Some ''c'')]])
       ''base'' [] (Some ''1'') [''base/d/b.pdf''])) \<and>
   EvAlreadyOk ''base/d/A.pdf'' \<notin> set (printed
     (main nocase_ops (table_lib [''path'', ''folio'', ''folio_correcto'']
        [[(''path'', Some ''d''), (''folio'', Some ''A''), (''folio_correcto'', Some ''b'')],
         [(''path'', Some ''d''), (''folio'', Some ''b''), (''folio_correcto'', Some ''c'')]])
       ''base'' [] (Some ''1'') [''base/d/b.pdf'']))"
proof -
  let ?lib = "table_lib [''path'', ''folio'', ''folio_correcto'']
        [[(''path'', Some ''d''), (''folio'', Some ''A''), (''folio_correcto'', Some ''b'')],
         [(''path'', Some ''d''), (''folio'', Some ''b''), (''folio_correcto'', Some ''c'')]]"
  have mv: "EvRenamed ''base/d/A.pdf'' ''base/d/b.pdf'' \<in> set (printed
      (main nocase_ops ?lib ''base'' [] (Some ''1'') [''base/d/a.pdf'']))"
    by (simp add: nocase_run_first)
  have f1: "final_fs (main nocase_ops ?lib ''base'' [] (Some ''1'') [''base/d/a.pdf''])
      = [''base/d/b.pdf'']"
    by (simp add: nocase_run_first)
  have gone: "\<not> fs_exists nocase_ops [''base/d/b.pdf''] ''base/d/A.pdf''"
    by (simp add: lower_upper_path)
  from second_run_amended [OF alias_fs_nocase_ops mv] alias_fs_nocase_ops mv gone
  show ?thesis
    unfolding f1 by blast
qed

end
